theory Spec2Isabelle
  imports Complex_Main "HOL-Library.Sublist" "HOL-Library.Log_Nat"
begin

section \<open>Conventions\<close>

text \<open>
  The script is modelled function by function. JavaScript strings are Isabelle strings
  (byte strings: text outside ASCII is written as its UTF-8 bytes). Mutation of the
  module-level \<open>serverData\<close>, of controller fields and of DOM elements is explicit
  state passing. Timers are entries of a queue with a due time in milliseconds; a timer
  callback runs at its due time. \<open>Math.random()\<close> is a source of draws that the code
  consumes in evaluation order; a draw is a real number in \<open>[0,1)\<close> (the doubles of the
  platform are idealised as reals).
\<close>

section \<open>Numbers: double precision\<close>

text \<open>
  A finite Number of the platform is the real number it stands for. The operations of the
  script compute the exact result and round it to the nearest double, a tie going to the
  even significand (53 bits, with the exponent range of IEEE 754 binary64 below; results
  beyond the largest double are told apart by \<open>overflows\<close>).
\<close>

text \<open>The number of digits of \<open>a\<close> to the base \<open>b\<close>.\<close>

function count_digits :: "nat \<Rightarrow> int \<Rightarrow> int" where
  "count_digits b a = (if 0 < a \<and> 1 < b then 1 + count_digits b (a div int b) else 0)"
  by pat_completeness auto
termination
  by (relation "measure (\<lambda>(b, a). nat a)") (auto intro: int_div_less_self)

declare count_digits.simps [simp del]

text \<open>For \<open>x > 0\<close>, the exponent \<open>e\<close> with \<open>b^e \<le> x < b^(e+1)\<close>.\<close>

definition ilog :: "nat \<Rightarrow> real \<Rightarrow> int" where
  "ilog b x =
     (if 1 \<le> x then count_digits b \<lfloor>x\<rfloor> - 1
      else - count_digits b (\<lceil>1 / x\<rceil> - 1))"

text \<open>The nearest integer, the even one of two that are equally near.\<close>

definition round_even :: "real \<Rightarrow> int" where
  "round_even y =
     (let f = \<lfloor>y\<rfloor>; d = y - of_int f
      in if d < 1 / 2 then f
         else if 1 / 2 < d then f + 1
         else if even f then f else f + 1)"

text \<open>
  The exponent of the spacing of the doubles around \<open>x \<noteq> 0\<close>: 52 below the exponent of
  \<open>x\<close>, and never below that of the smallest subnormal.
\<close>

definition ulp_exp :: "real \<Rightarrow> int" where
  "ulp_exp x = max (ilog 2 \<bar>x\<bar> - 52) (- 1074)"

definition to_double :: "real \<Rightarrow> real" where
  "to_double x =
     (if x = 0 then 0 else of_int (round_even (x / 2 powi ulp_exp x)) * 2 powi ulp_exp x)"

definition overflows :: "real \<Rightarrow> bool" where
  "overflows x \<longleftrightarrow> 2 ^ 1024 \<le> \<bar>to_double x\<bar>"

definition is_double :: "real \<Rightarrow> bool" where
  "is_double x \<longleftrightarrow> to_double x = x \<and> \<bar>x\<bar> < 2 ^ 1024"

text \<open>The product and the sum of two doubles, where they do not overflow.\<close>

definition double_mul :: "real \<Rightarrow> real \<Rightarrow> real" where
  "double_mul a b = to_double (a * b)"

definition double_add :: "real \<Rightarrow> real \<Rightarrow> real" where
  "double_add a b = to_double (a + b)"

section \<open>Number to string conversion\<close>

text \<open>
  \<open>Number::toString\<close> on integers: decimal digits, with a leading minus sign (the
  platform switches to an exponent from \<open>10^21\<close> on, far beyond the counts and
  percentages of this page).
\<close>

definition digit_char :: "nat \<Rightarrow> char" where
  "digit_char d = ''0123456789'' ! d"

fun nat_to_string :: "nat \<Rightarrow> string" where
  "nat_to_string n =
     (if n < 10 then [digit_char n]
      else nat_to_string (n div 10) @ [digit_char (n mod 10)])"

declare nat_to_string.simps [simp del]

definition int_to_string :: "int \<Rightarrow> string" where
  "int_to_string i =
     (if i < 0 then CHR ''-'' # nat_to_string (nat (- i)) else nat_to_string (nat i))"

text \<open>
  A number with one fractional digit is stored as its count of tenths (\<open>99.7\<close> is
  \<open>997\<close>). \<open>Number::toString\<close> prints the fraction only when it is not zero.
\<close>

definition tenths_to_string :: "int \<Rightarrow> string" where
  "tenths_to_string t =
     (let a = nat \<bar>t\<bar>;
          body = nat_to_string (a div 10) @
                 (if a mod 10 = 0 then [] else CHR ''.'' # nat_to_string (a mod 10))
      in if t < 0 then CHR ''-'' # body else body)"

section \<open>Server status: data\<close>

text \<open>The module-level \<open>serverData\<close> object (script.js, lines 19-25).\<close>

record serverData =
  status :: string
  playersOnline :: int
  maxPlayers :: int
  ping :: int
  uptime :: int  \<comment> \<open>in tenths of a percent\<close>

definition initial_serverData :: serverData where
  "initial_serverData =
     \<lparr>status = ''online'', playersOnline = 127, maxPlayers = 200, ping = 45, uptime = 999\<rparr>"

text \<open>A DOM element, as far as the script writes to it.\<close>

record element =
  textContent :: string
  className :: string

text \<open>
  \<open>ServerStatusManager.statusElements\<close>: each entry is the result of
  \<open>document.getElementById\<close>, which is \<open>null\<close> (here \<open>None\<close>) when the page has no such
  element.
\<close>

record statusElements =
  el_status :: "element option"
  el_playerCount :: "element option"
  el_ping :: "element option"
  el_uptime :: "element option"

definition text_online :: string where
  "text_online = [CHR 0xF0, CHR 0x9F, CHR 0x9F, CHR 0xA2, CHR 0x20, CHR 0xD8, CHR 0xA6,
     CHR 0xDB, CHR 0x86, CHR 0xD9, CHR 0x86, CHR 0xD9, CHR 0x84, CHR 0xD8, CHR 0xA7,
     CHR 0xDB, CHR 0x8C, CHR 0xD9, CHR 0x86]"

definition text_offline :: string where
  "text_offline = [CHR 0xF0, CHR 0x9F, CHR 0x94, CHR 0xB4, CHR 0x20, CHR 0xD9, CHR 0x86,
     CHR 0xD8, CHR 0xA7, CHR 0xDA, CHR 0xA9, CHR 0xD8, CHR 0xA7, CHR 0xD8, CHR 0xB1,
     CHR 0xD8, CHR 0xA7]"

section \<open>Server status: rendering\<close>

text \<open>\<open>el.textContent = s\<close> on an element that may be absent (the guarded writes).\<close>

definition set_text :: "string \<Rightarrow> element option \<Rightarrow> element option" where
  "set_text s e = map_option (\<lambda>x. x\<lparr>textContent := s\<rparr>) e"

text \<open>\<open>ServerStatusManager.updateDisplay\<close> (script.js, lines 250-276).\<close>

definition updateDisplay :: "serverData \<Rightarrow> statusElements \<Rightarrow> statusElements" where
  "updateDisplay d els =
     (case el_status els of
        None \<Rightarrow> els
      | Some badge \<Rightarrow>
          (let statusText = (if status d = ''online'' then text_online else text_offline);
               statusClass = (if status d = ''online'' then ''status-online''
                              else ''status-offline'')
           in els\<lparr>
                el_status := Some (badge\<lparr>textContent := statusText, className := statusClass\<rparr>),
                el_playerCount :=
                  set_text (int_to_string (playersOnline d) @ ''/'' @ int_to_string (maxPlayers d))
                    (el_playerCount els),
                el_ping :=
                  set_text (if status d = ''online'' then int_to_string (ping d) @ ''ms''
                            else ''N/A'')
                    (el_ping els),
                el_uptime := set_text (tenths_to_string (uptime d) @ ''%'') (el_uptime els)\<rparr>))"

section \<open>Server status: the manual update entry point\<close>

text \<open>
  The argument of \<open>updateServerData\<close>: an object holding some of the five fields.
\<close>

record partialServerData =
  new_status :: "string option"
  new_playersOnline :: "int option"
  new_maxPlayers :: "int option"
  new_ping :: "int option"
  new_uptime :: "int option"

text \<open>\<open>Object.assign(serverData, newData)\<close>: every property of the source overwrites.\<close>

definition assign_serverData :: "serverData \<Rightarrow> partialServerData \<Rightarrow> serverData" where
  "assign_serverData d n =
     \<lparr>status = (case new_status n of Some v \<Rightarrow> v | None \<Rightarrow> status d),
      playersOnline = (case new_playersOnline n of Some v \<Rightarrow> v | None \<Rightarrow> playersOnline d),
      maxPlayers = (case new_maxPlayers n of Some v \<Rightarrow> v | None \<Rightarrow> maxPlayers d),
      ping = (case new_ping n of Some v \<Rightarrow> v | None \<Rightarrow> ping d),
      uptime = (case new_uptime n of Some v \<Rightarrow> v | None \<Rightarrow> uptime d)\<rparr>"

text \<open>
  The part of the page state that \<open>KurdishCityApp.updateServerData\<close> touches: the shared
  record and the status manager, which is absent until \<open>init\<close> has constructed it.
\<close>

record app =
  app_serverData :: serverData
  app_serverStatus :: "statusElements option"

text \<open>\<open>KurdishCityApp.updateServerData\<close> (script.js, lines 959-962).\<close>

definition updateServerData :: "partialServerData \<Rightarrow> app \<Rightarrow> app" where
  "updateServerData newData a =
     (let d = assign_serverData (app_serverData a) newData
      in \<lparr>app_serverData = d,
          app_serverStatus = map_option (updateDisplay d) (app_serverStatus a)\<rparr>)"

section \<open>Random draws\<close>

text \<open>
  \<open>Math.random()\<close>: the generator is the sequence of the values its successive calls
  return, each a double in \<open>[0,1)\<close>; a call takes the first and leaves the rest.
\<close>

type_synonym rng = "nat \<Rightarrow> real"

definition Math_random :: "rng \<Rightarrow> real \<times> rng" where
  "Math_random g = (g 0, \<lambda>i. g (Suc i))"

text \<open>
  \<open>randomBetween\<close> (script.js, lines 49-51):
  \<open>Math.floor(Math.random() * (max - min + 1)) + min\<close>. The product is a double
  product; the bounds are integers small enough for their own arithmetic to be exact.
\<close>

definition randomBetween :: "int \<Rightarrow> int \<Rightarrow> rng \<Rightarrow> int \<times> rng" where
  "randomBetween mn mx g =
     (case Math_random g of
        (r, g') \<Rightarrow> (\<lfloor>double_mul r (of_int (mx - mn + 1))\<rfloor> + mn, g'))"

text \<open>
  \<open>parseFloat(x.toFixed(1))\<close>: the number with one fractional digit that is nearest to
  the exact value of the double \<open>x\<close>, the larger one on a tie; the result is given in
  tenths.
\<close>

definition toFixed1 :: "real \<Rightarrow> int" where
  "toFixed1 x = \<lfloor>x * 10 + 1 / 2\<rfloor>"

section \<open>Server status: the simulated fetch\<close>

text \<open>
  \<open>ServerStatusManager.fetchServerData\<close> (script.js, lines 229-248). The draws are taken
  in the order the object literal evaluates them: the online draw, then (only when online)
  the players draw and the ping draw, then the uptime draw. The literals \<open>0.1\<close> and
  \<open>0.4\<close> are the doubles nearest to them, \<open>99.5\<close> is a double itself, and the product
  and the sum are double operations. Nothing in the \<open>try\<close> block throws, so the \<open>catch\<close>
  branch has no counterpart. The result is the new value of \<open>serverData\<close>, which the
  function also returns.
\<close>

definition fetchServerData :: "rng \<Rightarrow> serverData \<times> rng" where
  "fetchServerData g0 =
     (case Math_random g0 of (r, g1) \<Rightarrow>
        let isOnline = (r > to_double (1 / 10)) in
        case (if isOnline then randomBetween 80 200 g1 else (0, g1)) of (players, g2) \<Rightarrow>
        case (if isOnline then randomBetween 25 80 g2 else (0, g2)) of (png, g3) \<Rightarrow>
        case Math_random g3 of (u, g4) \<Rightarrow>
          (\<lparr>status = (if isOnline then ''online'' else ''offline''),
            playersOnline = players,
            maxPlayers = 200,
            ping = png,
            uptime = toFixed1 (double_add (995 / 10) (double_mul u (to_double (4 / 10))))\<rparr>,
           g4))"

text \<open>
  Draws for the examples. The first tick is online: \<open>0.5\<close>, then \<open>43/128\<close> (times 121 is
  about 40.6), \<open>127/128\<close> (times 56 is about 55.6), and \<open>0.25\<close> for ever after. The second
  tick is offline: its online draw is the double \<open>0.1\<close> itself, which does not exceed
  \<open>0.1\<close>, and its later draws are \<open>0.75\<close>.
\<close>

definition example_draws :: rng where
  "example_draws i =
     (if i = 0 then 1 / 2
      else if i = 1 then 43 / 128
      else if i = 2 then 127 / 128
      else 1 / 4)"

definition example_draws_offline :: rng where
  "example_draws_offline i = (if i = 0 then 3602879701896397 / 36028797018963968 else 3 / 4)"

text \<open>
  Draws on which the rounding of the double operations shows. Online:
  \<open>0.2727272727272727\<close> (\<open>1228254443828317 / 2^52\<close>) times 121 is just below 33 and the
  double product is 33; \<open>99.5 + 0.125 * 0.4\<close> is a double just below \<open>99.55\<close>. Offline:
  \<open>99.5 + 0.875 * 0.4\<close> is a double just below \<open>99.85\<close>.
\<close>

definition rounding_draws :: rng where
  "rounding_draws i =
     (if i = 0 then 1 / 2
      else if i = 1 then 1228254443828317 / 4503599627370496
      else if i = 2 then 127 / 128
      else 1 / 8)"

definition rounding_draws_offline :: rng where
  "rounding_draws_offline i = (if i = 0 then 1 / 16 else 7 / 8)"

section \<open>Analytics: scroll depth\<close>

text \<open>
  The numbers \<open>Math.round\<close> can return: an integer, an infinity (a scroll offset divided
  by a zero scroll range) or \<open>NaN\<close> (zero divided by zero).
\<close>

datatype jsnum = Fin int | PosInf | NegInf | NaN

text \<open>The relational operator \<open>a > b\<close>: false as soon as one side is \<open>NaN\<close>.\<close>

fun js_gt :: "jsnum \<Rightarrow> jsnum \<Rightarrow> bool" where
  "js_gt NaN _ = False"
| "js_gt _ NaN = False"
| "js_gt (Fin a) (Fin b) = (a > b)"
| "js_gt PosInf PosInf = False"
| "js_gt PosInf _ = True"
| "js_gt _ PosInf = False"
| "js_gt NegInf _ = False"
| "js_gt (Fin a) NegInf = True"

text \<open>
  \<open>a % 25 === 0\<close>: the remainder of an integer has the sign of the dividend and is zero
  exactly when 25 divides it; the remainder of an infinity or of \<open>NaN\<close> is \<open>NaN\<close>.
\<close>

fun js_mod25_is_zero :: "jsnum \<Rightarrow> bool" where
  "js_mod25_is_zero (Fin a) = (a mod 25 = 0)"
| "js_mod25_is_zero _ = False"

text \<open>What the scroll handler reads from the window and the document.\<close>

record viewport =
  scrollY :: real
  scrollHeight :: real
  innerHeight :: real

text \<open>
  \<open>Math.round((window.scrollY / (scrollHeight - innerHeight)) * 100)\<close>
  (script.js, lines 808-810); \<open>Math.round\<close> rounds a tie upwards.
\<close>

definition scrollDepth :: "viewport \<Rightarrow> jsnum" where
  "scrollDepth v =
     (let h = scrollHeight v - innerHeight v
      in if h = 0
         then (if scrollY v = 0 then NaN else if scrollY v > 0 then PosInf else NegInf)
         else Fin \<lfloor>scrollY v / h * 100 + 1 / 2\<rfloor>)"

text \<open>
  The closure variable \<open>maxScrollDepth\<close> and the console lines the handler has written
  (the second argument of each \<open>console.log\<close>, oldest first).
\<close>

record analytics =
  maxScrollDepth :: jsnum
  scrollLog :: "string list"

definition initial_analytics :: analytics where
  "initial_analytics = \<lparr>maxScrollDepth = Fin 0, scrollLog = []\<rparr>"

text \<open>\<open>maxScrollDepth + '%'\<close>.\<close>

fun depth_text :: "jsnum \<Rightarrow> string" where
  "depth_text (Fin a) = int_to_string a @ ''%''"
| "depth_text PosInf = ''Infinity%''"
| "depth_text NegInf = ''-Infinity%''"
| "depth_text NaN = ''NaN%''"

text \<open>
  The body of the debounced scroll handler (script.js, lines 807-819), run on what the
  page shows when the handler fires.
\<close>

definition onScroll :: "viewport \<Rightarrow> analytics \<Rightarrow> analytics" where
  "onScroll v a =
     (let depth = scrollDepth v
      in if js_gt depth (maxScrollDepth a)
         then (let a' = a\<lparr>maxScrollDepth := depth\<rparr>
               in if js_mod25_is_zero (maxScrollDepth a')
                  then a'\<lparr>scrollLog := scrollLog a' @ [depth_text (maxScrollDepth a')]\<rparr>
                  else a')
         else a)"

text \<open>A run of the handler over the successive states of the page.\<close>

definition scroll_run :: "viewport list \<Rightarrow> analytics \<Rightarrow> analytics" where
  "scroll_run vs a = foldl (\<lambda>s v. onScroll v s) a vs"

text \<open>A page of 1100 pixels in a window of 100, scrolled to the given percentage.\<close>

definition page_at :: "int \<Rightarrow> viewport" where
  "page_at pct = \<lparr>scrollY = of_int pct * 10, scrollHeight = 1100, innerHeight = 100\<rparr>"

section \<open>Loading screen\<close>

text \<open>The inline style of the loading element, as far as the script writes to it.\<close>

record style =
  opacity :: string
  display :: string

text \<open>The two timer callbacks of \<open>hide\<close>: the outer one (fade) and the inner one.\<close>

datatype loading_task = FadeOut | RemoveFromLayout

text \<open>
  \<open>LoadingManager\<close> with the page state it touches: the loading element (\<open>None\<close> when
  \<open>getElementById('loading')\<close> found nothing), whether \<open>document.body\<close> carries the class
  \<open>loaded\<close>, and the pending timers with their due times in milliseconds.
\<close>

record loading =
  loadingScreen :: "style option"
  minLoadTime :: int
  startTime :: int
  body_loaded :: bool
  timers :: "(int \<times> loading_task) list"

text \<open>The constructor (script.js, lines 95-99), run at time \<open>now\<close>.\<close>

definition new_LoadingManager :: "style option \<Rightarrow> int \<Rightarrow> loading" where
  "new_LoadingManager el now =
     \<lparr>loadingScreen = el, minLoadTime = 1000, startTime = now, body_loaded = False,
      timers = []\<rparr>"

text \<open>\<open>setTimeout(task, delay)\<close> called at time \<open>now\<close>.\<close>

definition setTimeout_loading :: "loading_task \<Rightarrow> int \<Rightarrow> int \<Rightarrow> loading \<Rightarrow> loading" where
  "setTimeout_loading task delay now s = s\<lparr>timers := timers s @ [(now + delay, task)]\<rparr>"

text \<open>\<open>LoadingManager.hide\<close> (script.js, lines 101-112), called at time \<open>now\<close>.\<close>

definition hide :: "int \<Rightarrow> loading \<Rightarrow> loading" where
  "hide now s =
     (let elapsedTime = now - startTime s;
          remainingTime = max 0 (minLoadTime s - elapsedTime)
      in setTimeout_loading FadeOut remainingTime now s)"

text \<open>
  A timer callback running at time \<open>t\<close>. Writing to the style of a missing element throws
  a \<open>TypeError\<close>, which ends the callback where it stands: the fade then schedules
  nothing, and the inner callback does not reach the \<open>loaded\<close> class.
\<close>

fun run_task :: "loading_task \<Rightarrow> int \<Rightarrow> loading \<Rightarrow> loading" where
  "run_task FadeOut t s =
     (case loadingScreen s of
        None \<Rightarrow> s
      | Some st \<Rightarrow>
          setTimeout_loading RemoveFromLayout 500 t
            (s\<lparr>loadingScreen := Some (st\<lparr>opacity := ''0''\<rparr>)\<rparr>))"
| "run_task RemoveFromLayout t s =
     (case loadingScreen s of
        None \<Rightarrow> s
      | Some st \<Rightarrow> s\<lparr>loadingScreen := Some (st\<lparr>display := ''none''\<rparr>), body_loaded := True\<rparr>)"

text \<open>The pending timer that is due first (the one set first, among equals).\<close>

fun earliest :: "(int \<times> 'a) list \<Rightarrow> (int \<times> 'a) option" where
  "earliest [] = None"
| "earliest (x # xs) =
     (case earliest xs of
        None \<Rightarrow> Some x
      | Some y \<Rightarrow> if fst y < fst x then Some y else Some x)"

text \<open>Weight of the pending work: a fade is followed by one more callback.\<close>

fun task_weight :: "loading_task \<Rightarrow> nat" where
  "task_weight FadeOut = 2"
| "task_weight RemoveFromLayout = 1"

definition pending_weight :: "loading \<Rightarrow> nat" where
  "pending_weight s = sum_list (map (\<lambda>x. task_weight (snd x)) (timers s))"

text \<open>One turn of the event loop: the timer due first is taken off the queue and run.\<close>

definition fire :: "int \<times> loading_task \<Rightarrow> loading \<Rightarrow> loading" where
  "fire x s = run_task (snd x) (fst x) (s\<lparr>timers := remove1 x (timers s)\<rparr>)"

text \<open>
  The event loop up to time \<open>T\<close>: as long as a pending timer is due at or before \<open>T\<close>,
  the one due first runs, at its due time. Every turn lowers the pending weight.
\<close>

function run_until :: "int \<Rightarrow> loading \<Rightarrow> loading" where
  "run_until T s =
     (case earliest (timers s) of
        None \<Rightarrow> s
      | Some x \<Rightarrow> if fst x \<le> T then run_until T (fire x s) else s)"
  by pat_completeness auto
termination
proof (relation "measure (\<lambda>(T, s). pending_weight s)")
  show "wf (measure (\<lambda>(T, s). pending_weight s))" by simp
next
  fix T :: int and s :: loading and x :: "int \<times> loading_task"
  assume e: "earliest (timers s) = Some x" and "fst x \<le> T"
  have mem: "earliest xs = Some y \<Longrightarrow> y \<in> set xs" for xs :: "(int \<times> loading_task) list" and y
    by (induction xs arbitrary: y) (auto split: option.splits if_splits)
  have rem: "y \<in> set xs \<Longrightarrow>
      sum_list (map (\<lambda>x. task_weight (snd x)) (remove1 y xs)) + task_weight (snd y)
        = sum_list (map (\<lambda>x. task_weight (snd x)) xs)"
    for xs :: "(int \<times> loading_task) list" and y
    by (induction xs) auto
  obtain t k where x: "x = (t, k)" by (cases x)
  have "pending_weight (fire x s) < pending_weight s"
    using rem [OF mem [OF e]]
    by (cases k)
      (auto simp: fire_def pending_weight_def x setTimeout_loading_def split: option.splits)
  then show "((T, fire x s), (T, s)) \<in> measure (\<lambda>(T, s). pending_weight s)"
    by simp
qed

declare run_until.simps [simp del]

section \<open>Debounce\<close>













section \<open>JavaScript values and JSON text\<close>

text \<open>
  The values that JSON text denotes: \<open>null\<close>, booleans, numbers (here the integers),
  strings, arrays, and objects as their properties in enumeration order. Every value of
  the platform that JSON text can denote without a fraction or an exponent is one of
  these; an object's keys are distinct.
\<close>

datatype jsval =
    JNull
  | JBool bool
  | JNum int
  | JStr string
  | JArr "jsval list"
  | JObj "(string \<times> jsval) list"

text \<open>The errors that the platform calls of the script can throw.\<close>

datatype js_error = SecurityError | QuotaExceededError | SyntaxError

definition hex_char :: "nat \<Rightarrow> char" where
  "hex_char d = ''0123456789abcdef'' ! d"

text \<open>
  \<open>QuoteJSONString\<close>: the quote, the backslash and the control characters are escaped,
  every other character stands for itself.
\<close>

definition json_escape :: "char \<Rightarrow> string" where
  "json_escape c =
     (if c = CHR 0x22 then [CHR 0x5C, CHR 0x22]
      else if c = CHR 0x5C then [CHR 0x5C, CHR 0x5C]
      else if c = CHR 0x08 then [CHR 0x5C, CHR ''b'']
      else if c = CHR 0x0C then [CHR 0x5C, CHR ''f'']
      else if c = CHR 0x0A then [CHR 0x5C, CHR ''n'']
      else if c = CHR 0x0D then [CHR 0x5C, CHR ''r'']
      else if c = CHR 0x09 then [CHR 0x5C, CHR ''t'']
      else if (of_char c :: nat) < 32
        then [CHR 0x5C, CHR ''u'', CHR ''0'', CHR ''0'',
              hex_char (of_char c div 16), hex_char (of_char c mod 16)]
      else [c])"

definition QuoteJSONString :: "string \<Rightarrow> string" where
  "QuoteJSONString s = CHR 0x22 # concat (map json_escape s) @ [CHR 0x22]"

text \<open>The texts of a list, separated by commas.\<close>

fun join_comma :: "string list \<Rightarrow> string" where
  "join_comma [] = []"
| "join_comma [x] = x"
| "join_comma (x # y # ys) = x @ CHR '','' # join_comma (y # ys)"

text \<open>\<open>JSON.stringify(value)\<close> with no replacer and no indentation.\<close>

fun JSON_stringify :: "jsval \<Rightarrow> string" where
  "JSON_stringify JNull = ''null''"
| "JSON_stringify (JBool b) = (if b then ''true'' else ''false'')"
| "JSON_stringify (JNum n) = int_to_string n"
| "JSON_stringify (JStr s) = QuoteJSONString s"
| "JSON_stringify (JArr xs) = CHR ''['' # join_comma (map JSON_stringify xs) @ '']''"
| "JSON_stringify (JObj kvs) =
     CHR ''{'' #
     join_comma (map (\<lambda>kv. QuoteJSONString (fst kv) @ CHR '':'' # JSON_stringify (snd kv)) kvs)
     @ ''}''"

text \<open>
  \<open>ToString(value)\<close>, as \<open>setAttribute\<close> and template literals apply it: an array is
  the texts of its elements joined by commas, with \<open>null\<close> elements left empty; a plain
  object is \<open>[object Object]\<close>.
\<close>

fun ToString :: "jsval \<Rightarrow> string" where
  "ToString JNull = ''null''"
| "ToString (JBool b) = (if b then ''true'' else ''false'')"
| "ToString (JNum n) = int_to_string n"
| "ToString (JStr s) = s"
| "ToString (JArr xs) = join_comma (map (\<lambda>x. if x = JNull then [] else ToString x) xs)"
| "ToString (JObj kvs) = ''[object Object]''"

section \<open>Reading JSON text\<close>

text \<open>
  \<open>JSON.parse(text)\<close> for the values above. The parser follows the JSON grammar:
  white space around tokens, the literals, integers without leading zeros, strings with
  their escapes, arrays and objects. Texts of numbers with a fraction or an exponent, and
  \<open>\u\<close> escapes beyond ASCII, denote values outside \<open>jsval\<close>; no such text is the
  \<open>JSON.stringify\<close> of a \<open>jsval\<close>, and the parser does not accept them.
\<close>

definition is_ws :: "char \<Rightarrow> bool" where
  "is_ws c \<longleftrightarrow> c = CHR '' '' \<or> c = CHR 0x09 \<or> c = CHR 0x0A \<or> c = CHR 0x0D"

definition skip_ws :: "string \<Rightarrow> string" where
  "skip_ws s = dropWhile is_ws s"

definition is_digit :: "char \<Rightarrow> bool" where
  "is_digit c \<longleftrightarrow> 48 \<le> (of_char c :: nat) \<and> (of_char c :: nat) \<le> 57"

definition digit_val :: "char \<Rightarrow> nat" where
  "digit_val c = of_char c - 48"

definition digits_val :: "string \<Rightarrow> nat" where
  "digits_val ds = foldl (\<lambda>n c. 10 * n + digit_val c) 0 ds"

text \<open>An unsigned integer: a single zero, or digits that do not start with a zero.\<close>

definition parse_nat :: "string \<Rightarrow> (nat \<times> string) option" where
  "parse_nat s =
     (let ds = takeWhile is_digit s; rest = dropWhile is_digit s
      in if ds = [] then None
         else if hd ds = CHR ''0'' \<and> tl ds \<noteq> [] then None
         else if rest \<noteq> [] \<and> hd rest \<in> set ''.eE'' then None
         else Some (digits_val ds, rest))"

definition parse_number :: "string \<Rightarrow> (jsval \<times> string) option" where
  "parse_number s =
     (case s of
        [] \<Rightarrow> None
      | c # cs \<Rightarrow>
          if c = CHR ''-''
          then map_option (\<lambda>(n, r). (JNum (- int n), r)) (parse_nat cs)
          else map_option (\<lambda>(n, r). (JNum (int n), r)) (parse_nat s))"

definition hex_val :: "char \<Rightarrow> nat option" where
  "hex_val c =
     (if is_digit c then Some (of_char c - 48)
      else if 97 \<le> (of_char c :: nat) \<and> (of_char c :: nat) \<le> 102 then Some (of_char c - 87)
      else if 65 \<le> (of_char c :: nat) \<and> (of_char c :: nat) \<le> 70 then Some (of_char c - 55)
      else None)"

text \<open>The character of a \<open>\uXXXX\<close> escape, for the ASCII range.\<close>

definition unicode_escape :: "char \<Rightarrow> char \<Rightarrow> char \<Rightarrow> char \<Rightarrow> char option" where
  "unicode_escape a b c d =
     (case (hex_val a, hex_val b, hex_val c, hex_val d) of
        (Some x, Some y, Some z, Some w) \<Rightarrow>
          (let n = ((x * 16 + y) * 16 + z) * 16 + w
           in if n < 128 then Some (char_of n) else None)
      | _ \<Rightarrow> None)"

text \<open>The character of a two-character escape.\<close>

definition simple_escape :: "char \<Rightarrow> char option" where
  "simple_escape e =
     (if e = CHR 0x22 then Some (CHR 0x22)
      else if e = CHR 0x5C then Some (CHR 0x5C)
      else if e = CHR ''/'' then Some (CHR ''/'')
      else if e = CHR ''b'' then Some (CHR 0x08)
      else if e = CHR ''f'' then Some (CHR 0x0C)
      else if e = CHR ''n'' then Some (CHR 0x0A)
      else if e = CHR ''r'' then Some (CHR 0x0D)
      else if e = CHR ''t'' then Some (CHR 0x09)
      else None)"

definition cons_result :: "'a \<Rightarrow> ('a list \<times> 'b) option \<Rightarrow> ('a list \<times> 'b) option" where
  "cons_result x r = map_option (\<lambda>(xs, rest). (x # xs, rest)) r"

text \<open>
  The characters of a string up to its closing quote (the opening quote has been read):
  the string and the text that follows it.
\<close>

fun parse_chars :: "string \<Rightarrow> (string \<times> string) option" where
  "parse_chars [] = None"
| "parse_chars (c # cs) =
     (if c = CHR 0x22 then Some ([], cs)
      else if c = CHR 0x5C then
        (case cs of
           [] \<Rightarrow> None
         | e # r \<Rightarrow>
             if e = CHR ''u'' then
               (case r of
                  a # b # c # d # r' \<Rightarrow>
                    (case unicode_escape a b c d of
                       None \<Rightarrow> None
                     | Some ch \<Rightarrow> cons_result ch (parse_chars r'))
                | _ \<Rightarrow> None)
             else
               (case simple_escape e of
                  None \<Rightarrow> None
                | Some ch \<Rightarrow> cons_result ch (parse_chars r)))
      else if (of_char c :: nat) < 32 then None
      else cons_result c (parse_chars cs))"

text \<open>
  A value, the elements of an array after its opening bracket, and the members of an
  object after its opening brace, each with the text that follows. The first argument
  bounds the depth of the nested calls. Of two calls nested in one another, at least one
  reads a character before it calls further, so twice the length of the text is enough.
\<close>

fun parse_value :: "nat \<Rightarrow> string \<Rightarrow> (jsval \<times> string) option"
  and parse_elements :: "nat \<Rightarrow> string \<Rightarrow> (jsval list \<times> string) option"
  and parse_members :: "nat \<Rightarrow> string \<Rightarrow> ((string \<times> jsval) list \<times> string) option"
where
  "parse_value 0 s = None"
| "parse_value (Suc n) s =
     (case skip_ws s of
        [] \<Rightarrow> None
      | c # cs \<Rightarrow>
          if c = CHR ''n'' then
            (if take 3 cs = ''ull'' then Some (JNull, drop 3 cs) else None)
          else if c = CHR ''t'' then
            (if take 3 cs = ''rue'' then Some (JBool True, drop 3 cs) else None)
          else if c = CHR ''f'' then
            (if take 4 cs = ''alse'' then Some (JBool False, drop 4 cs) else None)
          else if c = CHR 0x22 then
            map_option (\<lambda>(str, r). (JStr str, r)) (parse_chars cs)
          else if c = CHR ''['' then
            (case skip_ws cs of
               [] \<Rightarrow> None
             | d # r \<Rightarrow>
                 if d = CHR '']'' then Some (JArr [], r)
                 else map_option (\<lambda>(xs, r'). (JArr xs, r')) (parse_elements n cs))
          else if c = CHR ''{'' then
            (case skip_ws cs of
               [] \<Rightarrow> None
             | d # r \<Rightarrow>
                 if d = CHR ''}'' then Some (JObj [], r)
                 else map_option (\<lambda>(kvs, r'). (JObj kvs, r')) (parse_members n cs))
          else parse_number (c # cs))"
| "parse_elements 0 s = None"
| "parse_elements (Suc n) s =
     (case parse_value n s of
        None \<Rightarrow> None
      | Some (v, r) \<Rightarrow>
          (case skip_ws r of
             [] \<Rightarrow> None
           | c # r' \<Rightarrow>
               if c = CHR '','' then cons_result v (parse_elements n r')
               else if c = CHR '']'' then Some ([v], r')
               else None))"
| "parse_members 0 s = None"
| "parse_members (Suc n) s =
     (case skip_ws s of
        [] \<Rightarrow> None
      | q # cs \<Rightarrow>
          if q \<noteq> CHR 0x22 then None
          else
            (case parse_chars cs of
               None \<Rightarrow> None
             | Some (k, r) \<Rightarrow>
                 (case skip_ws r of
                    [] \<Rightarrow> None
                  | c # r' \<Rightarrow>
                      if c \<noteq> CHR '':'' then None
                      else
                        (case parse_value n r' of
                           None \<Rightarrow> None
                         | Some (v, r'') \<Rightarrow>
                             (case skip_ws r'' of
                                [] \<Rightarrow> None
                              | e # r''' \<Rightarrow>
                                  if e = CHR '','' then cons_result (k, v) (parse_members n r''')
                                  else if e = CHR ''}'' then Some ([(k, v)], r''')
                                  else None)))))"

text \<open>\<open>JSON.parse(text)\<close>: one value, with nothing but white space after it.\<close>

definition JSON_parse :: "string \<Rightarrow> js_error + jsval" where
  "JSON_parse s =
     (case parse_value (Suc (2 * length s)) s of
        None \<Rightarrow> Inl SyntaxError
      | Some (v, rest) \<Rightarrow> if skip_ws rest = [] then Inr v else Inl SyntaxError)"

section \<open>Reading JSON text: measures for the proofs\<close>

text \<open>
  What can follow a value in the text that \<open>JSON.stringify\<close> writes: the end of the
  text, a comma, or a closing bracket or brace.
\<close>

definition value_end :: "string \<Rightarrow> bool" where
  "value_end r \<longleftrightarrow> r = [] \<or> hd r = CHR '','' \<or> hd r = CHR '']'' \<or> hd r = CHR ''}''"

text \<open>What a value's text can start with: not white space, not a closing bracket or brace.\<close>

definition value_start :: "char \<Rightarrow> bool" where
  "value_start c \<longleftrightarrow> \<not> is_ws c \<and> c \<noteq> CHR '']'' \<and> c \<noteq> CHR ''}''"

text \<open>The number of nested parser calls that reading a value back takes, at most.\<close>

fun cost :: "jsval \<Rightarrow> nat" where
  "cost (JArr xs) = Suc (sum_list (map (\<lambda>x. Suc (cost x)) xs))"
| "cost (JObj kvs) = Suc (sum_list (map (\<lambda>kv. Suc (cost (snd kv))) kvs))"
| "cost _ = Suc 0"

section \<open>The browser's key-value store\<close>

text \<open>
  \<open>window.localStorage\<close>: the stored entries in key order, whether the page may use the
  store at all (reading the property throws \<open>SecurityError\<close> otherwise), and the quota in
  characters of keys and values, beyond which \<open>setItem\<close> throws
  \<open>QuotaExceededError\<close>.
\<close>

record localStorage =
  ls_items :: "(string \<times> string) list"
  ls_available :: bool
  ls_quota :: nat

definition ls_size :: "(string \<times> string) list \<Rightarrow> nat" where
  "ls_size items = sum_list (map (\<lambda>kv. length (fst kv) + length (snd kv)) items)"

text \<open>The entries with one key set: replaced in place, or added at the end.\<close>

fun put_item :: "string \<Rightarrow> string \<Rightarrow> (string \<times> string) list \<Rightarrow> (string \<times> string) list" where
  "put_item k v [] = [(k, v)]"
| "put_item k v (kv # kvs) = (if fst kv = k then (k, v) # kvs else kv # put_item k v kvs)"

definition ls_getItem :: "string \<Rightarrow> localStorage \<Rightarrow> js_error + string option" where
  "ls_getItem k ls = (if ls_available ls then Inr (map_of (ls_items ls) k) else Inl SecurityError)"

definition ls_setItem :: "string \<Rightarrow> string \<Rightarrow> localStorage \<Rightarrow> js_error + localStorage" where
  "ls_setItem k v ls =
     (if \<not> ls_available ls then Inl SecurityError
      else let items = put_item k v (ls_items ls)
           in if ls_size items > ls_quota ls then Inl QuotaExceededError
              else Inr (ls\<lparr>ls_items := items\<rparr>))"

definition ls_removeItem :: "string \<Rightarrow> localStorage \<Rightarrow> js_error + localStorage" where
  "ls_removeItem k ls =
     (if ls_available ls then Inr (ls\<lparr>ls_items := filter (\<lambda>kv. fst kv \<noteq> k) (ls_items ls)\<rparr>)
      else Inl SecurityError)"

text \<open>\<open>Object.keys(localStorage)\<close>.\<close>

definition ls_keys :: "localStorage \<Rightarrow> js_error + string list" where
  "ls_keys ls = (if ls_available ls then Inr (map fst (ls_items ls)) else Inl SecurityError)"

section \<open>StorageManager\<close>

text \<open>\<open>this.prefix\<close> (script.js, line 646).\<close>

definition sm_prefix :: string where
  "sm_prefix = ''kurdish_city_''"

text \<open>
  \<open>StorageManager.set\<close> (script.js, lines 649-657): the success flag and the store
  afterwards. An exception leaves the store as it was.
\<close>

definition StorageManager_set :: "string \<Rightarrow> jsval \<Rightarrow> localStorage \<Rightarrow> bool \<times> localStorage" where
  "StorageManager_set key value ls =
     (case ls_setItem (sm_prefix @ key) (JSON_stringify value) ls of
        Inr ls' \<Rightarrow> (True, ls')
      | Inl error \<Rightarrow> (False, ls))"

text \<open>
  \<open>StorageManager.get\<close> (script.js, lines 659-667). \<open>item ? ... : defaultValue\<close> takes
  the default for \<open>null\<close> and for the empty string.
\<close>

definition StorageManager_get :: "string \<Rightarrow> jsval \<Rightarrow> localStorage \<Rightarrow> jsval" where
  "StorageManager_get key defaultValue ls =
     (case ls_getItem (sm_prefix @ key) ls of
        Inl error \<Rightarrow> defaultValue
      | Inr None \<Rightarrow> defaultValue
      | Inr (Some item) \<Rightarrow>
          if item = [] then defaultValue
          else (case JSON_parse item of
                  Inl error \<Rightarrow> defaultValue
                | Inr v \<Rightarrow> v))"

text \<open>\<open>StorageManager.remove\<close> (script.js, lines 669-677).\<close>

definition StorageManager_remove :: "string \<Rightarrow> localStorage \<Rightarrow> bool \<times> localStorage" where
  "StorageManager_remove key ls =
     (case ls_removeItem (sm_prefix @ key) ls of
        Inr ls' \<Rightarrow> (True, ls')
      | Inl error \<Rightarrow> (False, ls))"

text \<open>
  \<open>keys.forEach(key => localStorage.removeItem(key))\<close>: the removals in order; an
  exception ends the loop and keeps the removals made before it.
\<close>

fun remove_each :: "string list \<Rightarrow> localStorage \<Rightarrow> (js_error + unit) \<times> localStorage" where
  "remove_each [] ls = (Inr (), ls)"
| "remove_each (k # ks) ls =
     (case ls_removeItem k ls of
        Inl error \<Rightarrow> (Inl error, ls)
      | Inr ls' \<Rightarrow> remove_each ks ls')"

text \<open>\<open>StorageManager.clear\<close> (script.js, lines 679-690).\<close>

definition StorageManager_clear :: "localStorage \<Rightarrow> bool \<times> localStorage" where
  "StorageManager_clear ls =
     (case ls_keys ls of
        Inl error \<Rightarrow> (False, ls)
      | Inr all_keys \<Rightarrow>
          (let keys = filter (\<lambda>key. prefix sm_prefix key) all_keys
           in case remove_each keys ls of
                (Inr u, ls') \<Rightarrow> (True, ls')
              | (Inl error, ls') \<Rightarrow> (False, ls')))"

text \<open>
  A store for the examples: two entries under the prefix, and two control entries
  outside it (one differs from the prefix only in the case of its first letter).
\<close>

definition example_store :: localStorage where
  "example_store =
     \<lparr>ls_items = [(''kurdish_city_theme'', [CHR 0x22] @ ''blue'' @ [CHR 0x22]), (''other'', ''1''),
                 (''kurdish_city_'', ''x''), (''Kurdish_city_a'', ''y'')],
      ls_available = True, ls_quota = 5000\<rparr>"

section \<open>ThemeManager\<close>

text \<open>
  \<open>ThemeManager\<close> with the page state it touches: \<open>this.currentTheme\<close>, the
  \<open>data-theme\<close> attribute of the document element, the store, the notifications shown so
  far (message and type; their timed removal is left out) and whether the floating toggle
  button has been added to the body.
\<close>

record theme_page =
  currentTheme :: jsval
  data_theme :: "string option"
  storage :: localStorage
  notifications :: "(string \<times> string) list"
  toggle_button :: bool

definition text_theme :: string where
  "text_theme = [CHR 0xD8, CHR 0xAA, CHR 0xDB, CHR 0x8C, CHR 0xD9, CHR 0x85, CHR 0xDB,
     CHR 0x8C, CHR 0x20]"

definition text_dark :: string where
  "text_dark = [CHR 0xD8, CHR 0xAA, CHR 0xD8, CHR 0xA7, CHR 0xD8, CHR 0xB1, CHR 0xDB,
     CHR 0x8C, CHR 0xDA, CHR 0xA9]"

definition text_light :: string where
  "text_light = [CHR 0xDA, CHR 0x95, CHR 0xD9, CHR 0x88, CHR 0xD9, CHR 0x88, CHR 0xD9,
     CHR 0x86, CHR 0xD8, CHR 0xA7, CHR 0xDA, CHR 0xA9]"

definition text_activated :: string where
  "text_activated = [CHR 0x20, CHR 0xDA, CHR 0x86, CHR 0xD8, CHR 0xA7, CHR 0xD9, CHR 0x84,
     CHR 0xD8, CHR 0xA7, CHR 0xDA, CHR 0xA9, CHR 0x20, CHR 0xDA, CHR 0xA9, CHR 0xD8,
     CHR 0xB1, CHR 0xD8, CHR 0xA7]"

definition showNotification :: "string \<Rightarrow> string \<Rightarrow> theme_page \<Rightarrow> theme_page" where
  "showNotification message type p = p\<lparr>notifications := notifications p @ [(message, type)]\<rparr>"

text \<open>
  \<open>ThemeManager.applyTheme\<close> (script.js, lines 708-710); \<open>setAttribute\<close> stores the
  value as a string.
\<close>

definition applyTheme :: "theme_page \<Rightarrow> theme_page" where
  "applyTheme p = p\<lparr>data_theme := Some (ToString (currentTheme p))\<rparr>"

text \<open>\<open>ThemeManager.toggleTheme\<close> (script.js, lines 712-721).\<close>

definition toggleTheme :: "theme_page \<Rightarrow> theme_page" where
  "toggleTheme p =
     (let p1 = p\<lparr>currentTheme :=
                  (if currentTheme p = JStr ''dark'' then JStr ''light'' else JStr ''dark'')\<rparr>;
          p2 = p1\<lparr>storage := snd (StorageManager_set ''theme'' (currentTheme p1) (storage p1))\<rparr>;
          p3 = applyTheme p2
      in showNotification
           (text_theme @ (if currentTheme p3 = JStr ''dark'' then text_dark else text_light)
              @ text_activated)
           ''success'' p3)"

text \<open>
  The constructor with \<open>init\<close> (script.js, lines 697-706 and 723-751) on a page whose
  document element has no \<open>data-theme\<close> yet: the theme is read from the store, applied,
  and the button is added on a window wider than 768 pixels.
\<close>

definition new_ThemeManager :: "localStorage \<Rightarrow> int \<Rightarrow> theme_page" where
  "new_ThemeManager ls innerWidth =
     (let p = \<lparr>currentTheme = StorageManager_get ''theme'' (JStr ''dark'') ls,
               data_theme = None, storage = ls, notifications = [], toggle_button = False\<rparr>
      in (applyTheme p)\<lparr>toggle_button := (innerWidth > 768)\<rparr>)"

section \<open>Easter egg: the Konami code\<close>

text \<open>\<open>this.targetCode\<close> (script.js, lines 451-455).\<close>

definition targetCode :: "string list" where
  "targetCode =
     [''ArrowUp'', ''ArrowUp'', ''ArrowDown'', ''ArrowDown'',
      ''ArrowLeft'', ''ArrowRight'', ''ArrowLeft'', ''ArrowRight'',
      ''KeyB'', ''KeyA'']"

text \<open>
  \<open>EasterEggManager\<close>, as far as the key handler goes: the buffer \<open>this.konamiCode\<close> and
  the number of times \<open>activateKonamiEffect\<close> has run (the effect itself, a filter on the
  body with a notification and a timer that removes it, is not modelled further).
\<close>

record easterEgg =
  konamiCode :: "string list"
  konamiActivations :: nat

definition new_EasterEggManager :: easterEgg where
  "new_EasterEggManager = \<lparr>konamiCode = [], konamiActivations = 0\<rparr>"

definition activateKonamiEffect :: "easterEgg \<Rightarrow> easterEgg" where
  "activateKonamiEffect s = s\<lparr>konamiActivations := Suc (konamiActivations s)\<rparr>"

text \<open>
  The \<open>keydown\<close> listener of \<open>setupKonamiCode\<close> (script.js, lines 468-479), on an event
  with the given \<open>code\<close>: \<open>push\<close>, \<open>shift\<close> when the buffer has outgrown the target, and
  the comparison of the two \<open>JSON.stringify\<close> texts.
\<close>

definition keydown :: "string \<Rightarrow> easterEgg \<Rightarrow> easterEgg" where
  "keydown code s =
     (let s1 = s\<lparr>konamiCode := konamiCode s @ [code]\<rparr>;
          s2 = (if length (konamiCode s1) > length targetCode
                then s1\<lparr>konamiCode := tl (konamiCode s1)\<rparr> else s1)
      in if JSON_stringify (JArr (map JStr (konamiCode s2)))
            = JSON_stringify (JArr (map JStr targetCode))
         then (activateKonamiEffect s2)\<lparr>konamiCode := []\<rparr>
         else s2)"

text \<open>The key presses of a session, in order, from a fresh manager.\<close>

definition konami_run :: "string list \<Rightarrow> easterEgg" where
  "konami_run keys = foldl (\<lambda>s code. keydown code s) new_EasterEggManager keys"

text \<open>The last \<open>n\<close> entries of a list (all of it, when it is shorter).\<close>

definition last_codes :: "nat \<Rightarrow> 'a list \<Rightarrow> 'a list" where
  "last_codes n xs = drop (length xs - n) xs"

text \<open>
  The buffer between key presses: it is the end of the keys pressed so far, at most as
  long as the target; when it is shorter, it is either all the keys so far, or the keys
  since a press that completed the target.
\<close>

definition konami_inv :: "string list \<Rightarrow> easterEgg \<Rightarrow> bool" where
  "konami_inv keys s \<longleftrightarrow>
     (\<exists>pre. keys = pre @ konamiCode s \<and>
            length (konamiCode s) \<le> length targetCode \<and>
            (length (konamiCode s) < length targetCode \<longrightarrow> pre = [] \<or> suffix targetCode pre))"

section \<open>Double arithmetic: properties\<close>

lemma count_digits_floorlog: "0 \<le> a \<Longrightarrow> count_digits b a = int (floorlog b (nat a))"
proof (induction b a rule: count_digits.induct)
  case (1 b a)
  show ?case
  proof (cases "0 < a \<and> 1 < b")
    case True
    have "0 \<le> a div int b" using True by (simp add: pos_imp_zdiv_nonneg_iff)
    from "1.IH" [OF True this] have "count_digits b (a div int b) = int (floorlog b (nat a div b))"
      using True by (simp add: nat_div_distrib)
    then show ?thesis
      using True by (subst count_digits.simps, subst compute_floorlog) simp
  next
    case False
    then show ?thesis
      using 1(2) by (subst count_digits.simps, subst compute_floorlog) auto
  qed
qed

lemma ilog_floorlog:
  "ilog b x =
     (if 1 \<le> x then int (floorlog b (nat \<lfloor>x\<rfloor>)) - 1
      else - int (floorlog b (nat (\<lceil>1 / x\<rceil> - 1))))"
proof (cases "1 \<le> x")
  case True
  then have "0 \<le> \<lfloor>x\<rfloor>" by simp
  then show ?thesis using True by (simp add: ilog_def count_digits_floorlog)
next
  case False
  show ?thesis
  proof (cases "0 \<le> \<lceil>1 / x\<rceil> - 1")
    case True
    then show ?thesis using False by (simp add: ilog_def count_digits_floorlog)
  next
    case neg: False
    then have "\<not> 0 < \<lceil>1 / x\<rceil> - 1" by linarith
    then have "count_digits b (\<lceil>1 / x\<rceil> - 1) = 0"
      by (subst count_digits.simps) (simp only: simp_thms if_False)
    moreover have "nat (\<lceil>1 / x\<rceil> - 1) = 0" using neg by linarith
    then have "floorlog b (nat (\<lceil>1 / x\<rceil> - 1)) = 0"
      by (simp only: floorlog_eq_zero_iff) simp
    ultimately show ?thesis using False by (simp add: ilog_def)
  qed
qed

lemma ilog_bounds:
  assumes "0 < x" "1 < b"
  shows "real b powi ilog b x \<le> x \<and> x < real b powi (ilog b x + 1)"
proof (cases "1 \<le> x")
  case True
  define n where "n = nat \<lfloor>x\<rfloor>"
  have n: "0 < n" "real n \<le> x" "x < real n + 1"
    using True by (simp_all add: n_def)
  define j where "j = floorlog b n"
  have fb: "b ^ (j - 1) \<le> n" "n < b ^ j"
    using floorlog_bounds [OF n(1) assms(2)] by (simp_all add: j_def)
  have j: "0 < j" using fb(2) n(1) by (cases j) auto
  have e: "ilog b x = int j - 1" using True by (simp add: ilog_floorlog n_def j_def)
  have eq: "real b powi (int j - 1) = real b ^ (j - 1)"
    using j by (simp add: power_int_def nat_diff_distrib of_nat_diff)
  have lo: "real b ^ (j - 1) \<le> real n"
    using fb(1) by (metis of_nat_le_iff of_nat_power)
  have up: "real n + 1 \<le> real b ^ j"
  proof -
    have "n + 1 \<le> b ^ j" using fb(2) by simp
    then have "real (n + 1) \<le> real (b ^ j)" by (simp only: of_nat_le_iff)
    then show ?thesis by simp
  qed
  have p1: "real b powi (int j - 1) \<le> x" using eq lo n(2) by linarith
  have "real b powi (int j - 1 + 1) = real b ^ j" by simp
  then have p2: "x < real b powi (int j - 1 + 1)" using up n(3) by linarith
  show ?thesis unfolding e using p1 p2 by blast
next
  case False
  then have x1: "x < 1" by simp
  define c where "c = \<lceil>1 / x\<rceil>"
  have inv: "1 < 1 / x" using assms(1) x1 by simp
  have c: "1 / x \<le> of_int c" "of_int c < 1 / x + 1" "2 \<le> c"
    using inv by (simp_all add: c_def) linarith+
  define n where "n = nat (c - 1)"
  have n: "0 < n" "real n = of_int c - 1"
    using c(3) by (simp_all add: n_def)
  define j where "j = floorlog b n"
  have fb: "b ^ (j - 1) \<le> n" "n < b ^ j"
    using floorlog_bounds [OF n(1) assms(2)] by (simp_all add: j_def)
  have j: "0 < j" using fb(2) n(1) by (cases j) auto
  have e: "ilog b x = - int j" using False by (simp add: ilog_floorlog n_def j_def c_def)
  have bpos: "0 < real b" using assms(2) by simp
  have up: "real n + 1 \<le> real b ^ j"
  proof -
    have "n + 1 \<le> b ^ j" using fb(2) by simp
    then have "real (n + 1) \<le> real (b ^ j)" by (simp only: of_nat_le_iff)
    then show ?thesis by simp
  qed
  have lo: "real b ^ (j - 1) \<le> real n"
    using fb(1) by (metis of_nat_le_iff of_nat_power)
  have "1 / x \<le> real b ^ j" using c(1) n(2) up by simp
  then have "1 / real b ^ j \<le> x"
    using assms(1) bpos by (simp add: field_simps)
  moreover have "real b powi (- int j) = 1 / real b ^ j"
    by (simp add: power_int_minus field_simps)
  ultimately have A: "real b powi (- int j) \<le> x" by simp
  have "real b ^ (j - 1) < 1 / x" using lo n(2) c(2) by simp
  then have "x < 1 / real b ^ (j - 1)"
    using assms(1) bpos by (simp add: field_simps)
  moreover have "real b powi (- int j + 1) = 1 / real b ^ (j - 1)"
  proof -
    have "- int j + 1 = - int (j - 1)" using j by simp
    then show ?thesis by (simp only: power_int_minus power_int_of_nat) (simp add: field_simps)
  qed
  ultimately have B: "x < real b powi (- int j + 1)" by simp
  show ?thesis unfolding e using A B by blast
qed

lemma ilog_unique:
  assumes "1 < b" "real b powi e \<le> x" "x < real b powi (e + 1)"
  shows "ilog b x = e"
proof -
  have bpos: "1 < real b" using assms(1) by simp
  have x: "0 < x" using assms(2) bpos
    by (meson less_le_trans less_trans zero_less_one zero_less_power_int)
  note ib = ilog_bounds [OF x assms(1)]
  have "real b powi ilog b x < real b powi (e + 1)" using ib assms(3) by linarith
  then have "ilog b x < e + 1"
    using power_int_increasing [of "e + 1" "ilog b x" "real b"] bpos by (cases "ilog b x < e + 1") auto
  moreover have "real b powi e < real b powi (ilog b x + 1)" using ib assms(2) by linarith
  then have "e < ilog b x + 1"
    using power_int_increasing [of "ilog b x + 1" e "real b"] bpos by (cases "e < ilog b x + 1") auto
  ultimately show ?thesis by simp
qed

lemma round_even_error: "\<bar>of_int (round_even y) - y\<bar> \<le> 1 / 2"
  unfolding round_even_def Let_def by (auto simp: abs_le_iff)

lemma round_even_of_int [simp]: "round_even (of_int N) = N"
  by (simp add: round_even_def)

lemma round_even_ge: "of_int N \<le> y \<Longrightarrow> N \<le> round_even y"
proof -
  assume "of_int N \<le> y"
  then have "N \<le> \<lfloor>y\<rfloor>" by (simp add: le_floor_iff)
  then show ?thesis unfolding round_even_def Let_def by auto
qed

lemma round_even_le: "y \<le> of_int N \<Longrightarrow> round_even y \<le> N"
proof (cases "y = of_int N")
  case True
  then show ?thesis by simp
next
  case False
  assume "y \<le> of_int N"
  with False have "y < of_int N" by simp
  then have "\<lfloor>y\<rfloor> < N" by (simp add: floor_less_iff)
  then show ?thesis unfolding round_even_def Let_def by auto
qed

lemma two_powi_pos [simp]: "0 < (2::real) powi k"
  by (simp add: zero_less_power_int)

lemma ulp_exp_le:
  assumes "x \<noteq> 0" "\<bar>x\<bar> < 2 powi E"
  shows "ulp_exp x \<le> max (E - 53) (- 1074)"
proof -
  have "(2::real) powi ilog 2 \<bar>x\<bar> \<le> \<bar>x\<bar>"
    using ilog_bounds [of "\<bar>x\<bar>" 2] assms(1) by simp
  then have "(2::real) powi ilog 2 \<bar>x\<bar> < 2 powi E" using assms(2) by linarith
  then have "ilog 2 \<bar>x\<bar> < E"
    using power_int_increasing [of E "ilog 2 \<bar>x\<bar>" "2::real"] by (cases "ilog 2 \<bar>x\<bar> < E") auto
  then show ?thesis by (simp add: ulp_exp_def)
qed

lemma to_double_error:
  "\<bar>to_double x - x\<bar> \<le> 2 powi ulp_exp x / 2"
proof (cases "x = 0")
  case True
  then show ?thesis by (simp add: to_double_def)
next
  case False
  let ?u = "(2::real) powi ulp_exp x"
  have "\<bar>of_int (round_even (x / ?u)) - x / ?u\<bar> \<le> 1 / 2" by (rule round_even_error)
  then have "\<bar>of_int (round_even (x / ?u)) - x / ?u\<bar> * ?u \<le> 1 / 2 * ?u"
    by (intro mult_right_mono) simp_all
  moreover have "\<bar>of_int (round_even (x / ?u)) - x / ?u\<bar> * ?u
      = \<bar>of_int (round_even (x / ?u)) * ?u - x\<bar>"
  proof -
    have "\<bar>of_int (round_even (x / ?u)) - x / ?u\<bar> * ?u
        = \<bar>(of_int (round_even (x / ?u)) - x / ?u) * ?u\<bar>"
      by (simp add: abs_mult)
    also have "(of_int (round_even (x / ?u)) - x / ?u) * ?u = of_int (round_even (x / ?u)) * ?u - x"
      by (simp add: algebra_simps)
    finally show ?thesis .
  qed
  ultimately show ?thesis using False by (simp add: to_double_def)
qed

lemma to_double_error_below:
  assumes "\<bar>x\<bar> < 2 powi E" "- 1021 \<le> E"
  shows "\<bar>to_double x - x\<bar> \<le> 2 powi (E - 54)"
proof (cases "x = 0")
  case True
  then show ?thesis by (simp add: to_double_def)
next
  case False
  have "ulp_exp x \<le> E - 53" using ulp_exp_le [OF False assms(1)] assms(2) by simp
  then have "(2::real) powi ulp_exp x \<le> 2 powi (E - 53)"
    by (intro power_int_increasing) simp_all
  moreover have "(2::real) powi (E - 53) = 2 * 2 powi (E - 54)"
    using power_int_add [of "2::real" 1 "E - 54"] by simp
  ultimately show ?thesis using to_double_error [of x] by linarith
qed

lemma to_double_ge:
  assumes "of_int k * 2 powi j \<le> x" "ulp_exp x \<le> j"
  shows "of_int k * 2 powi j \<le> to_double x"
proof (cases "x = 0")
  case True
  then show ?thesis using assms(1) by (simp add: to_double_def)
next
  case False
  let ?q = "ulp_exp x"
  let ?u = "(2::real) powi ?q"
  have split: "(2::real) powi j = 2 ^ nat (j - ?q) * ?u"
  proof -
    have "(2::real) powi j = 2 powi (j - ?q) * 2 powi ?q"
      using power_int_add [of "2::real" "j - ?q" ?q] by simp
    then show ?thesis using assms(2) by (simp add: power_int_def)
  qed
  define N where "N = k * 2 ^ nat (j - ?q)"
  have m: "of_int k * 2 powi j = of_int N * ?u"
    by (simp add: N_def split)
  have "of_int N * ?u \<le> x" using assms(1) m by simp
  then have "of_int N \<le> x / ?u" by (simp add: pos_le_divide_eq)
  then have "N \<le> round_even (x / ?u)" by (rule round_even_ge)
  then have "of_int N * ?u \<le> of_int (round_even (x / ?u)) * ?u"
    by (intro mult_right_mono) simp_all
  then show ?thesis using False by (simp add: to_double_def m)
qed

lemma to_double_le:
  assumes "x \<le> of_int k * 2 powi j" "ulp_exp x \<le> j"
  shows "to_double x \<le> of_int k * 2 powi j"
proof (cases "x = 0")
  case True
  then show ?thesis using assms(1) by (simp add: to_double_def)
next
  case False
  let ?q = "ulp_exp x"
  let ?u = "(2::real) powi ?q"
  have split: "(2::real) powi j = 2 ^ nat (j - ?q) * ?u"
  proof -
    have "(2::real) powi j = 2 powi (j - ?q) * 2 powi ?q"
      using power_int_add [of "2::real" "j - ?q" ?q] by simp
    then show ?thesis using assms(2) by (simp add: power_int_def)
  qed
  define N where "N = k * 2 ^ nat (j - ?q)"
  have m: "of_int k * 2 powi j = of_int N * ?u"
    by (simp add: N_def split)
  have "x \<le> of_int N * ?u" using assms(1) m by simp
  then have "x / ?u \<le> of_int N" by (simp add: pos_divide_le_eq)
  then have "round_even (x / ?u) \<le> N" by (rule round_even_le)
  then have "of_int (round_even (x / ?u)) * ?u \<le> of_int N * ?u"
    by (intro mult_right_mono) simp_all
  then show ?thesis using False by (simp add: to_double_def m)
qed

lemma to_double_nonneg: "0 \<le> x \<Longrightarrow> 0 \<le> to_double x"
  using to_double_ge [of 0 "ulp_exp x" x] by simp

lemma double_below_one:
  assumes "is_double r" "0 \<le> r" "r < 1"
  shows "r \<le> 1 - 1 / 2 ^ 53"
proof (cases "r < 1 / 2")
  case True
  have "(1::real) / 2 ^ 53 \<le> 1 / 2 ^ 1"
    by (intro divide_left_mono power_increasing) simp_all
  with True show ?thesis by simp
next
  case False
  then have r: "r \<noteq> 0" "\<bar>r\<bar> = r" "1 / 2 \<le> r" using assms(2) by simp_all
  have "ilog 2 r = - 1"
    by (rule ilog_unique) (use r(3) assms(3) in simp_all)
  then have q: "ulp_exp r = - 53" by (simp add: ulp_exp_def r(2))
  define I where "I = round_even (r / 2 powi (- 53))"
  define P :: int where "P = 2 ^ 53"
  have P: "0 < P" by (simp add: P_def)
  have u: "(2::real) powi (- 53) = 1 / of_int P"
    by (simp add: power_int_minus field_simps P_def)
  have td: "to_double r = r" using assms(1) by (simp only: is_double_def)
  have "to_double r = of_int I * 2 powi (- 53)"
    using r(1) by (simp only: to_double_def q I_def if_False)
  then have rI: "r = of_int I / of_int P"
    using td by (simp only: u) simp
  have "of_int I < (of_int P :: real)" using assms(3) P by (simp add: rI field_simps)
  then have "I < P" by (simp only: of_int_less_iff)
  then have "I \<le> P - 1" by simp
  then have "(of_int I :: real) \<le> of_int (P - 1)" by (simp only: of_int_le_iff)
  then have "(of_int I :: real) \<le> of_int P - 1" by simp
  then have "r \<le> (of_int P - 1) / of_int P"
    using P unfolding rI by (intro divide_right_mono) simp_all
  also have "\<dots> = 1 - 1 / of_int P" using P by (simp add: field_simps)
  also have "(of_int P :: real) = 2 ^ 53" by (simp add: P_def)
  finally show ?thesis .
qed

lemma double_0_4: "to_double (2 / 5) = 3602879701896397 / 9007199254740992"
  by code_simp

lemma double_0_1: "to_double (1 / 10) = 3602879701896397 / 36028797018963968"
  by code_simp

lemma floor_double_mul:
  fixes w :: int and E :: nat
  assumes r: "is_double r" "0 \<le> r" "r < 1"
    and w: "2 ^ E < 2 * real_of_int w" "real_of_int w \<le> 2 ^ E" "E \<le> 53"
  defines "J \<equiv> \<lfloor>double_mul r (of_int w)\<rfloor>"
  shows "0 \<le> J \<and> J \<le> w - 1 \<and>
         real_of_int J \<le> r * of_int w + 2 powi (int E - 54) \<and>
         r * of_int w < real_of_int J + 1"
proof -
  define x where "x = r * real_of_int w"
  define p where "p = to_double x"
  have J: "J = \<lfloor>p\<rfloor>" by (simp add: J_def p_def x_def double_mul_def)
  have wpos: "0 < real_of_int w"
  proof -
    have "(0::real) < 2 ^ E" by simp
    then show ?thesis using w(1) by linarith
  qed
  have x0: "0 \<le> x" using r(2) wpos by (simp add: x_def)
  have r53: "r \<le> 1 - 1 / 2 ^ 53" by (rule double_below_one [OF r])
  define g where "g = real_of_int w / 2 ^ 53"
  define h where "h = (2::real) powi (int E - 54)"
  have xw: "x \<le> real_of_int w - g"
  proof -
    have "r * real_of_int w \<le> (1 - 1 / 2 ^ 53) * real_of_int w"
      using r53 wpos by (intro mult_right_mono) simp_all
    then show ?thesis by (simp add: x_def g_def algebra_simps)
  qed
  have gpos: "0 < g" using wpos by (simp add: g_def)
  have xlt: "x < real_of_int w" using xw gpos by linarith
  have pE: "(2::real) powi int E = 2 ^ E" by simp
  have absx: "\<bar>x\<bar> < 2 powi int E" using x0 xlt w(2) by (simp only: pE)
  have err: "\<bar>p - x\<bar> \<le> h"
    unfolding p_def h_def by (rule to_double_error_below [OF absx]) simp
  have p0: "0 \<le> p" unfolding p_def by (rule to_double_nonneg [OF x0])
  have half: "h = 2 ^ E / 2 / 2 ^ 53"
  proof -
    have "(2::real) powi (int E - 54) = 2 powi int E * 2 powi (- 54)"
      using power_int_add [of "2::real" "int E" "- 54"] by simp
    also have "(2::real) powi (- 54) = 1 / 2 / 2 ^ 53"
      by (simp add: power_int_minus field_simps)
    finally show ?thesis by (simp add: h_def)
  qed
  have hg: "h < g"
    unfolding half g_def using w(1) by (intro divide_strict_right_mono) simp_all
  have plt: "p < real_of_int w" using err xw hg by linarith
  have a: "0 \<le> J" using p0 by (simp add: J)
  have "J < w" using plt by (simp add: J floor_less_iff)
  then have b: "J \<le> w - 1" by simp
  have "real_of_int J \<le> p" by (simp add: J)
  then have c: "real_of_int J \<le> r * of_int w + 2 powi (int E - 54)"
    using err unfolding x_def h_def by linarith
  have d: "r * of_int w < real_of_int J + 1"
  proof (rule ccontr)
    assume "\<not> r * of_int w < real_of_int J + 1"
    then have ge: "of_int (J + 1) * 2 powi 0 \<le> x" by (simp add: x_def)
    then have "x \<noteq> 0" using a by auto
    then have "ulp_exp x \<le> max (int E - 53) (- 1074)" by (rule ulp_exp_le [OF _ absx])
    then have "ulp_exp x \<le> 0" using w(3) by simp
    from to_double_ge [OF ge this] have "real_of_int (J + 1) \<le> p" by (simp add: p_def)
    then have "J + 1 \<le> \<lfloor>p\<rfloor>" by (simp only: le_floor_iff)
    then show False by (simp add: J)
  qed
  show ?thesis using a b c d by blast
qed

lemma uptime_bounds:
  assumes "0 \<le> u" "u < 1"
  defines "U \<equiv> toFixed1 (double_add (995 / 10) (double_mul u (to_double (4 / 10))))"
  shows "995 + 4 * u - 1 / 2 - 1 / 2 ^ 42 < real_of_int U \<and>
         real_of_int U \<le> 995 + 4 * u + 1 / 2 + 1 / 2 ^ 42"
proof -
  define c :: real where "c = 3602879701896397 / 9007199254740992"
  define p where "p = to_double (u * c)"
  define s where "s = to_double (995 / 10 + p)"
  have U: "U = \<lfloor>s * 10 + 1 / 2\<rfloor>"
    by (simp add: U_def toFixed1_def double_add_def double_mul_def double_0_4 s_def p_def c_def)
  have c: "0 < c" "c < 1 / 2" "\<bar>c - 4 / 10\<bar> \<le> 1 / 2 ^ 55" by (simp_all add: c_def)
  have uc: "0 \<le> u * c" "u * c < 1 / 2"
  proof -
    show "0 \<le> u * c" using assms(1) c(1) by simp
    have "u * c \<le> 1 * c" using assms c(1) by (intro mult_right_mono) simp_all
    then show "u * c < 1 / 2" using c(2) by simp
  qed
  have "\<bar>u * c\<bar> < 2 powi (- 1)" using uc by simp
  then have e1: "\<bar>p - u * c\<bar> \<le> 2 powi (- 1 - 54)"
    unfolding p_def by (rule to_double_error_below) simp
  have p0: "0 \<le> p" unfolding p_def by (rule to_double_nonneg [OF uc(1)])
  have e55: "(2::real) powi (- 1 - 54) = 1 / 2 ^ 55" by (simp add: power_int_minus field_simps)
  have e47: "(2::real) powi (7 - 54) = 1 / 2 ^ 47" by (simp add: power_int_minus field_simps)
  have "(1::real) / 2 ^ 55 \<le> 1 / 2" by simp
  then have p1: "p < 1" using e1 uc(2) unfolding e55 by linarith
  have "\<bar>995 / 10 + p\<bar> < 2 powi 7" using p0 p1 by simp
  then have e2: "\<bar>s - (995 / 10 + p)\<bar> \<le> 2 powi (7 - 54)"
    unfolding s_def by (rule to_double_error_below) simp
  have e3: "\<bar>u * c - u * (4 / 10)\<bar> \<le> 1 / 2 ^ 55"
  proof -
    have "u * c - u * (4 / 10) = u * (c - 4 / 10)" by (simp add: algebra_simps)
    then have "\<bar>u * c - u * (4 / 10)\<bar> = \<bar>u\<bar> * \<bar>c - 4 / 10\<bar>"
      by (simp only: abs_mult)
    also have "\<dots> = u * \<bar>c - 4 / 10\<bar>" using assms(1) by simp
    also have "\<dots> \<le> 1 * (1 / 2 ^ 55)"
      using assms c(3) by (intro mult_mono) simp_all
    finally show ?thesis by simp
  qed
  define d where "d = s - (995 / 10 + 4 / 10 * u)"
  have "\<bar>d\<bar> \<le> 1 / 2 ^ 47 + 1 / 2 ^ 55 + 1 / 2 ^ 55"
    using e1 e2 e3 unfolding e55 e47 d_def by linarith
  then have "10 * \<bar>d\<bar> \<le> 10 * ((1::real) / 2 ^ 47 + 1 / 2 ^ 55 + 1 / 2 ^ 55)"
    by (intro mult_left_mono) simp_all
  moreover have "10 * ((1::real) / 2 ^ 47 + 1 / 2 ^ 55 + 1 / 2 ^ 55) \<le> 1 / 2 ^ 42" by simp
  ultimately have "10 * \<bar>d\<bar> \<le> 1 / 2 ^ 42" by (rule order_trans)
  define t :: real where "t = 1 / 2 ^ 42"
  have d: "10 * \<bar>d\<bar> \<le> t" using \<open>10 * \<bar>d\<bar> \<le> 1 / 2 ^ 42\<close> by (simp only: t_def)
  have fl: "real_of_int U \<le> s * 10 + 1 / 2" "s * 10 + 1 / 2 < real_of_int U + 1"
    unfolding U by linarith+
  have s: "s = d + 995 / 10 + 4 / 10 * u" by (simp add: d_def)
  have "995 + 4 * u - 1 / 2 - t < real_of_int U \<and> real_of_int U \<le> 995 + 4 * u + 1 / 2 + t"
  proof -
    have "10 * d \<le> t" "- t \<le> 10 * d" using d by linarith+
    moreover have "(d + 995 / 10 + 4 / 10 * u) * 10 = 10 * d + 995 + 4 * u" by (simp add: algebra_simps)
    ultimately show ?thesis using fl unfolding s by linarith
  qed
  then show ?thesis by (simp only: t_def)
qed

section \<open>Server status: properties\<close>

lemma nat_to_string_150: "nat_to_string 150 = ''150''"
  by (simp add: nat_to_string.simps digit_char_def)

lemma nat_to_string_200: "nat_to_string 200 = ''200''"
  by (simp add: nat_to_string.simps digit_char_def)

text \<open>
  C6. With the status badge present, \<open>updateDisplay\<close> on the record
  \<open>{status:"offline", playersOnline:0, ping:0, uptime:99.7}\<close> (whatever \<open>maxPlayers\<close> is)
  writes \<open>N/A\<close> to the ping slot and gives the badge the offline glyph and class; on
  \<open>{status:"online", playersOnline:150, maxPlayers:200, ...}\<close> it writes \<open>150/200\<close> to
  the player-count slot and the ping followed by \<open>ms\<close> to the ping slot.
\<close>

theorem updateDisplay_renders:
  assumes "el_status els = Some badge"
  shows "(let off = updateDisplay
                 \<lparr>status = ''offline'', playersOnline = 0, maxPlayers = mp, ping = 0,
                  uptime = 997\<rparr> els;
              on = updateDisplay
                 \<lparr>status = ''online'', playersOnline = 150, maxPlayers = 200, ping = pg,
                  uptime = up\<rparr> els
          in el_ping off = map_option (\<lambda>e. e\<lparr>textContent := ''N/A''\<rparr>) (el_ping els) \<and>
             el_status off =
               Some (badge\<lparr>textContent := text_offline, className := ''status-offline''\<rparr>) \<and>
             el_playerCount on =
               map_option (\<lambda>e. e\<lparr>textContent := ''150/200''\<rparr>) (el_playerCount els) \<and>
             el_ping on =
               map_option (\<lambda>e. e\<lparr>textContent := int_to_string pg @ ''ms''\<rparr>) (el_ping els) \<and>
             el_status on =
               Some (badge\<lparr>textContent := text_online, className := ''status-online''\<rparr>))"
  using assms
  by (simp add: updateDisplay_def set_text_def int_to_string_def Let_def
      nat_to_string_150 nat_to_string_200)

theorem updateDisplay_renders_witness:
  "(let els = \<lparr>el_status = Some \<lparr>textContent = [], className = []\<rparr>,
               el_playerCount = Some \<lparr>textContent = [], className = ''stat''\<rparr>,
               el_ping = Some \<lparr>textContent = [], className = ''stat''\<rparr>,
               el_uptime = None\<rparr>;
        off = updateDisplay
                \<lparr>status = ''offline'', playersOnline = 0, maxPlayers = 200, ping = 0,
                 uptime = 997\<rparr> els;
        on = updateDisplay
                \<lparr>status = ''online'', playersOnline = 150, maxPlayers = 200, ping = 45,
                 uptime = 999\<rparr> els
    in el_ping off = Some \<lparr>textContent = ''N/A'', className = ''stat''\<rparr> \<and>
       el_status off = Some \<lparr>textContent = text_offline, className = ''status-offline''\<rparr> \<and>
       el_playerCount on = Some \<lparr>textContent = ''150/200'', className = ''stat''\<rparr> \<and>
       el_ping on = Some \<lparr>textContent = ''45ms'', className = ''stat''\<rparr> \<and>
       el_status on = Some \<lparr>textContent = text_online, className = ''status-online''\<rparr>)"
proof -
  have p45: "int_to_string 45 = ''45''"
    by (simp add: int_to_string_def nat_to_string.simps digit_char_def)
  show ?thesis
    using updateDisplay_renders
      [of "\<lparr>el_status = Some \<lparr>textContent = [], className = []\<rparr>,
            el_playerCount = Some \<lparr>textContent = [], className = ''stat''\<rparr>,
            el_ping = Some \<lparr>textContent = [], className = ''stat''\<rparr>,
            el_uptime = None\<rparr>"
          "\<lparr>textContent = [], className = []\<rparr>" 200 45 999]
    by (simp add: Let_def p45)
qed

text \<open>
  C10. When the page has no status badge, \<open>updateDisplay\<close> returns at once and leaves
  all four slots as they were, whatever the other three elements are; the public
  \<open>updateServerData\<close> still merges the supplied fields into the shared record, and a
  field the partial record does not supply keeps its previous value.
\<close>

theorem updateServerData_without_badge:
  assumes "el_status els = None"
  shows "updateDisplay d els = els \<and>
         app_serverStatus (updateServerData n \<lparr>app_serverData = d, app_serverStatus = Some els\<rparr>)
           = Some els \<and>
         (let d' = app_serverData
                     (updateServerData n \<lparr>app_serverData = d, app_serverStatus = Some els\<rparr>)
          in status d' = (case new_status n of Some v \<Rightarrow> v | None \<Rightarrow> status d) \<and>
             playersOnline d' =
               (case new_playersOnline n of Some v \<Rightarrow> v | None \<Rightarrow> playersOnline d) \<and>
             maxPlayers d' = (case new_maxPlayers n of Some v \<Rightarrow> v | None \<Rightarrow> maxPlayers d) \<and>
             ping d' = (case new_ping n of Some v \<Rightarrow> v | None \<Rightarrow> ping d) \<and>
             uptime d' = (case new_uptime n of Some v \<Rightarrow> v | None \<Rightarrow> uptime d))"
proof -
  have frame: "updateDisplay x els = els" for x
    using assms by (simp add: updateDisplay_def)
  show ?thesis
    by (simp add: frame updateServerData_def assign_serverData_def Let_def)
qed

theorem updateServerData_without_badge_witness:
  "(let els = \<lparr>el_status = None,
               el_playerCount = Some \<lparr>textContent = ''127/200'', className = []\<rparr>,
               el_ping = Some \<lparr>textContent = ''45ms'', className = []\<rparr>,
               el_uptime = Some \<lparr>textContent = ''99.9%'', className = []\<rparr>\<rparr>;
        n = \<lparr>new_status = Some ''offline'', new_playersOnline = Some 0,
             new_maxPlayers = None, new_ping = Some 0, new_uptime = None\<rparr>;
        a = updateServerData n
              \<lparr>app_serverData = initial_serverData, app_serverStatus = Some els\<rparr>
    in app_serverStatus a = Some els \<and>
       app_serverData a =
         \<lparr>status = ''offline'', playersOnline = 0, maxPlayers = 200, ping = 0, uptime = 999\<rparr>)"
  using updateServerData_without_badge
    [of "\<lparr>el_status = None,
          el_playerCount = Some \<lparr>textContent = ''127/200'', className = []\<rparr>,
          el_ping = Some \<lparr>textContent = ''45ms'', className = []\<rparr>,
          el_uptime = Some \<lparr>textContent = ''99.9%'', className = []\<rparr>\<rparr>"
        initial_serverData
        "\<lparr>new_status = Some ''offline'', new_playersOnline = Some 0,
          new_maxPlayers = None, new_ping = Some 0, new_uptime = None\<rparr>"]
  by (simp add: Let_def initial_serverData_def)

section \<open>The simulated fetch: properties\<close>

lemma randomBetween_bounds:
  fixes E :: nat
  assumes r: "is_double (g 0)" "0 \<le> g 0" "g 0 < 1"
    and w: "2 ^ E < 2 * real_of_int (mx - mn + 1)" "real_of_int (mx - mn + 1) \<le> 2 ^ E" "E \<le> 53"
  defines "k \<equiv> fst (randomBetween mn mx g)"
  shows "mn \<le> k \<and> k \<le> mx \<and>
         real_of_int (k - mn) \<le> g 0 * of_int (mx - mn + 1) + 2 powi (int E - 54) \<and>
         g 0 * of_int (mx - mn + 1) < real_of_int (k - mn) + 1"
proof -
  have k: "k - mn = \<lfloor>double_mul (g 0) (of_int (mx - mn + 1))\<rfloor>"
    by (simp add: k_def randomBetween_def Math_random_def)
  show ?thesis
    using floor_double_mul [OF r w] unfolding k [symmetric] by simp
qed

lemma uptime_range:
  assumes "0 \<le> u" "u < 1"
  defines "U \<equiv> toFixed1 (double_add (995 / 10) (double_mul u (to_double (4 / 10))))"
  shows "995 \<le> U \<and> U \<le> 999"
proof -
  define t :: real where "t = 1 / 2 ^ 42"
  have t: "0 < t" "t < 1 / 2" by (simp_all add: t_def)
  have b: "995 + 4 * u - 1 / 2 - t < real_of_int U" "real_of_int U \<le> 995 + 4 * u + 1 / 2 + t"
    using uptime_bounds [OF assms(1,2)] unfolding U_def t_def by simp_all
  have "real_of_int 994 < real_of_int U" using b(1) assms(1) t by linarith
  then have lo: "994 < U" by (simp only: of_int_less_iff)
  have "real_of_int U < real_of_int 1000" using b(2) assms(2) t by linarith
  then have "U < 1000" by (simp only: of_int_less_iff)
  with lo show ?thesis by simp
qed

lemma fetch_online:
  assumes "g 0 > 3602879701896397 / 36028797018963968"
  shows "fst (fetchServerData g) =
     \<lparr>status = ''online'',
      playersOnline = fst (randomBetween 80 200 (\<lambda>i. g (Suc i))),
      maxPlayers = 200,
      ping = fst (randomBetween 25 80 (\<lambda>i. g (Suc (Suc i)))),
      uptime = toFixed1 (double_add (995 / 10) (double_mul (g 3) (to_double (4 / 10))))\<rparr>"
  using assms
  by (simp add: fetchServerData_def Math_random_def randomBetween_def double_0_1
      numeral_3_eq_3 split: prod.splits)

lemma fetch_offline:
  assumes "\<not> g 0 > 3602879701896397 / 36028797018963968"
  shows "fst (fetchServerData g) =
     \<lparr>status = ''offline'', playersOnline = 0, maxPlayers = 200, ping = 0,
      uptime = toFixed1 (double_add (995 / 10) (double_mul (g 1) (to_double (4 / 10))))\<rparr>"
  using assms
  by (simp add: fetchServerData_def Math_random_def double_0_1 split: prod.splits)

lemma rounding_players: "\<lfloor>double_mul (1228254443828317 / 4503599627370496) 121\<rfloor> = 33"
  by code_simp

lemma rounding_ping: "\<lfloor>double_mul (127 / 128) 56\<rfloor> = 55"
  by code_simp

lemma rounding_uptime: "toFixed1 (double_add (199 / 2) (double_mul (1 / 8) (to_double (2 / 5)))) = 995"
  by code_simp

lemma rounding_uptime_offline: "toFixed1 (double_add (199 / 2) (double_mul (7 / 8) (to_double (2 / 5)))) = 998"
  by code_simp

lemma fetchServerData_rounding:
  "fst (fetchServerData rounding_draws) =
     \<lparr>status = ''online'', playersOnline = 113, maxPlayers = 200, ping = 80, uptime = 995\<rparr>"
  "fst (fetchServerData rounding_draws_offline) =
     \<lparr>status = ''offline'', playersOnline = 0, maxPlayers = 200, ping = 0, uptime = 998\<rparr>"
proof -
  have e: "rounding_draws 0 = 1 / 2"
    "rounding_draws (Suc 0) = 1228254443828317 / 4503599627370496"
    "rounding_draws (Suc (Suc 0)) = 127 / 128" "rounding_draws 3 = 1 / 8"
    by (simp_all add: rounding_draws_def)
  have "(3602879701896397 / 36028797018963968 :: real) < rounding_draws 0" by (simp add: e)
  with fetch_online [of rounding_draws]
  show "fst (fetchServerData rounding_draws) =
     \<lparr>status = ''online'', playersOnline = 113, maxPlayers = 200, ping = 80, uptime = 995\<rparr>"
    by (simp add: randomBetween_def Math_random_def e rounding_players rounding_ping
        rounding_uptime)
  have e': "rounding_draws_offline 0 = 1 / 16" "rounding_draws_offline (Suc 0) = 7 / 8"
    by (simp_all add: rounding_draws_offline_def)
  have "\<not> (3602879701896397 / 36028797018963968 :: real) < rounding_draws_offline 0"
    by (simp add: e')
  with fetch_offline [of rounding_draws_offline]
  show "fst (fetchServerData rounding_draws_offline) =
     \<lparr>status = ''offline'', playersOnline = 0, maxPlayers = 200, ping = 0, uptime = 998\<rparr>"
    by (simp add: e' rounding_uptime_offline)
qed

lemma is_doubleI: "to_double x = x \<Longrightarrow> \<bar>x\<bar> < 1 \<Longrightarrow> is_double x"
proof -
  assume a: "to_double x = x" "\<bar>x\<bar> < 1"
  have "(1::real) \<le> 2 ^ 1024" by (rule one_le_power) simp
  then have "\<bar>x\<bar> < 2 ^ 1024" using a(2) by (rule less_le_trans [rotated])
  then show ?thesis using a(1) by (simp only: is_double_def)
qed

lemma example_draws_to_double:
  "to_double (1 / 2) = 1 / 2" "to_double (43 / 128) = 43 / 128"
  "to_double (127 / 128) = 127 / 128" "to_double (1 / 4) = 1 / 4"
  "to_double (3602879701896397 / 36028797018963968) = 3602879701896397 / 36028797018963968"
  "to_double (3 / 4) = 3 / 4"
  by code_simp+

lemma example_draws_double:
  "is_double (1 / 2)" "is_double (43 / 128)" "is_double (127 / 128)" "is_double (1 / 4)"
  "is_double (3602879701896397 / 36028797018963968)" "is_double (3 / 4)"
  by (rule is_doubleI, rule example_draws_to_double, simp)+

text \<open>
  C1. Whatever the draws of one refresh tick are (each a double in \<open>[0,1)\<close>), the record
  that \<open>fetchServerData\<close> produces is online exactly when the online draw exceeds the
  double \<open>0.1\<close> (\<open>3602879701896397 / 2^55\<close>) and offline otherwise. When online,
  \<open>playersOnline\<close> lies in \<open>[80,200]\<close> and \<open>playersOnline - 80\<close> is the integer part of 121
  times the players draw, or the next integer when that product is within \<open>2^-47\<close> of it
  (the rounding of the double product); \<open>ping\<close> lies in \<open>[25,80]\<close> and \<open>ping - 25\<close> is the
  integer part of 56 times the ping draw in the same sense (within \<open>2^-48\<close>): each value is
  taken on an interval of draws of the same width, up to that rounding. When offline both
  are \<open>0\<close>. In both branches \<open>maxPlayers\<close> is \<open>200\<close>, and \<open>uptime\<close> (in tenths) is between
  \<open>995\<close> and \<open>999\<close> and within a half (and \<open>2^-42\<close> for the double operations) of
  \<open>995 + 4 * u\<close>, where \<open>u\<close> is the draw that follows the ones already taken: \<open>99.5 + 0.4 * u\<close>
  rounded to one decimal, by the same formula in both branches.
\<close>

theorem fetchServerData_policy:
  assumes "\<forall>i. is_double (g i) \<and> 0 \<le> g i \<and> g i < 1"
  shows "(let d = fst (fetchServerData g);
              online = (g 0 > 3602879701896397 / 36028797018963968) in
          (status d = ''online'' \<longleftrightarrow> online) \<and>
          (status d = ''offline'' \<longleftrightarrow> \<not> online) \<and>
          (online \<longrightarrow>
             80 \<le> playersOnline d \<and> playersOnline d \<le> 200 \<and>
             real_of_int (playersOnline d - 80) \<le> g 1 * 121 + 1 / 2 ^ 47 \<and>
             g 1 * 121 < real_of_int (playersOnline d - 80) + 1 \<and>
             25 \<le> ping d \<and> ping d \<le> 80 \<and>
             real_of_int (ping d - 25) \<le> g 2 * 56 + 1 / 2 ^ 48 \<and>
             g 2 * 56 < real_of_int (ping d - 25) + 1 \<and>
             995 + 4 * g 3 - 1 / 2 - 1 / 2 ^ 42 < real_of_int (uptime d) \<and>
             real_of_int (uptime d) \<le> 995 + 4 * g 3 + 1 / 2 + 1 / 2 ^ 42) \<and>
          (\<not> online \<longrightarrow>
             playersOnline d = 0 \<and> ping d = 0 \<and>
             995 + 4 * g 1 - 1 / 2 - 1 / 2 ^ 42 < real_of_int (uptime d) \<and>
             real_of_int (uptime d) \<le> 995 + 4 * g 1 + 1 / 2 + 1 / 2 ^ 42) \<and>
          maxPlayers d = 200 \<and> 995 \<le> uptime d \<and> uptime d \<le> 999)"
proof (cases "g 0 > 3602879701896397 / 36028797018963968")
  case True
  let ?d = "fst (fetchServerData g)"
  have d: "?d = \<lparr>status = ''online'',
      playersOnline = fst (randomBetween 80 200 (\<lambda>i. g (Suc i))),
      maxPlayers = 200,
      ping = fst (randomBetween 25 80 (\<lambda>i. g (Suc (Suc i)))),
      uptime = toFixed1 (double_add (995 / 10) (double_mul (g 3) (to_double (4 / 10))))\<rparr>"
    using fetch_online [of g] True by simp
  have g1: "is_double (g 1)" "0 \<le> g 1" "g 1 < 1"
    and g2: "is_double (g 2)" "0 \<le> g 2" "g 2 < 1"
    and g3: "0 \<le> g 3" "g 3 < 1"
    using assms by auto
  have p47: "(2::real) powi (int 7 - 54) = 1 / 2 ^ 47"
    by (simp add: power_int_minus field_simps)
  have p48: "(2::real) powi (int 6 - 54) = 1 / 2 ^ 48"
    by (simp add: power_int_minus field_simps)
  have pl: "80 \<le> playersOnline ?d \<and> playersOnline ?d \<le> 200 \<and>
      real_of_int (playersOnline ?d - 80) \<le> g 1 * 121 + 1 / 2 ^ 47 \<and>
      g 1 * 121 < real_of_int (playersOnline ?d - 80) + 1"
    using randomBetween_bounds [of "\<lambda>i. g (Suc i)" 7 200 80] g1
    unfolding p47 by (simp add: d)
  have pg: "25 \<le> ping ?d \<and> ping ?d \<le> 80 \<and>
      real_of_int (ping ?d - 25) \<le> g 2 * 56 + 1 / 2 ^ 48 \<and>
      g 2 * 56 < real_of_int (ping ?d - 25) + 1"
    using randomBetween_bounds [of "\<lambda>i. g (Suc (Suc i))" 6 80 25] g2
    unfolding p48 by (simp add: d numeral_2_eq_2)
  have up: "995 \<le> uptime ?d \<and> uptime ?d \<le> 999"
    using uptime_range [OF g3] by (simp add: d)
  have ub: "995 + 4 * g 3 - 1 / 2 - 1 / 2 ^ 42 < real_of_int (uptime ?d) \<and>
      real_of_int (uptime ?d) \<le> 995 + 4 * g 3 + 1 / 2 + 1 / 2 ^ 42"
    using uptime_bounds [OF g3] by (simp add: d)
  have st: "status ?d = ''online''" "status ?d \<noteq> ''offline''" "maxPlayers ?d = 200"
    by (simp_all add: d)
  show ?thesis
    unfolding Let_def using True pl pg up ub st by blast
next
  case False
  let ?d = "fst (fetchServerData g)"
  have d: "?d = \<lparr>status = ''offline'', playersOnline = 0, maxPlayers = 200, ping = 0,
      uptime = toFixed1 (double_add (995 / 10) (double_mul (g 1) (to_double (4 / 10))))\<rparr>"
    using fetch_offline [of g] False by simp
  have g1: "0 \<le> g 1" "g 1 < 1" using assms by auto
  have up: "995 \<le> uptime ?d \<and> uptime ?d \<le> 999"
    using uptime_range [OF g1] by (simp add: d)
  have ub: "995 + 4 * g 1 - 1 / 2 - 1 / 2 ^ 42 < real_of_int (uptime ?d) \<and>
      real_of_int (uptime ?d) \<le> 995 + 4 * g 1 + 1 / 2 + 1 / 2 ^ 42"
    using uptime_bounds [OF g1] by (simp add: d)
  have st: "status ?d = ''offline''" "status ?d \<noteq> ''online''" "maxPlayers ?d = 200"
    "playersOnline ?d = 0" "ping ?d = 0"
    by (simp_all add: d)
  show ?thesis
    unfolding Let_def using False up ub st by blast
qed

theorem fetchServerData_policy_witness:
  "(\<forall>i. is_double (example_draws i) \<and> 0 \<le> example_draws i \<and> example_draws i < 1) \<and>
   fst (fetchServerData example_draws) =
     \<lparr>status = ''online'', playersOnline = 120, maxPlayers = 200, ping = 80, uptime = 996\<rparr> \<and>
   (\<forall>i. is_double (example_draws_offline i) \<and> 0 \<le> example_draws_offline i \<and>
        example_draws_offline i < 1) \<and>
   fst (fetchServerData example_draws_offline) =
     \<lparr>status = ''offline'', playersOnline = 0, maxPlayers = 200, ping = 0, uptime = 998\<rparr>"
proof -
  have h: "\<forall>i. is_double (example_draws i) \<and> 0 \<le> example_draws i \<and> example_draws i < 1"
    using example_draws_double by (simp add: example_draws_def)
  have e: "example_draws 0 = 1 / 2" "example_draws 1 = 43 / 128" "example_draws 2 = 127 / 128"
    "example_draws 3 = 1 / 4"
    by (simp_all add: example_draws_def)
  let ?d = "fst (fetchServerData example_draws)"
  note p = fetchServerData_policy [OF h, unfolded Let_def e]
  have st: "status ?d = ''online''" and mp: "maxPlayers ?d = 200"
    using p by simp_all
  have pl: "playersOnline ?d = 120"
  proof -
    have "real_of_int (playersOnline ?d - 80) \<le> 43 / 128 * 121 + 1 / 2 ^ 47"
      "43 / 128 * 121 < real_of_int (playersOnline ?d - 80) + 1"
      using p by simp_all
    then have "real_of_int (playersOnline ?d) < real_of_int 121"
      "real_of_int 119 < real_of_int (playersOnline ?d)"
      by simp_all
    then have "playersOnline ?d < 121" "119 < playersOnline ?d"
      by (simp_all only: of_int_less_iff)
    then show ?thesis by simp
  qed
  have pg: "ping ?d = 80"
  proof -
    have "real_of_int (ping ?d - 25) \<le> 127 / 128 * 56 + 1 / 2 ^ 48"
      "127 / 128 * 56 < real_of_int (ping ?d - 25) + 1"
      using p by simp_all
    then have "real_of_int (ping ?d) < real_of_int 81" "real_of_int 79 < real_of_int (ping ?d)"
      by simp_all
    then have "ping ?d < 81" "79 < ping ?d"
      by (simp_all only: of_int_less_iff)
    then show ?thesis by simp
  qed
  have up: "uptime ?d = 996"
  proof -
    have "995 + 4 * (1 / 4) - 1 / 2 - 1 / 2 ^ 42 < real_of_int (uptime ?d)"
      "real_of_int (uptime ?d) \<le> 995 + 4 * (1 / 4) + 1 / 2 + 1 / 2 ^ 42"
      using p by simp_all
    then have "real_of_int (uptime ?d) < real_of_int 997" "real_of_int 995 < real_of_int (uptime ?d)"
      by simp_all
    then have "uptime ?d < 997" "995 < uptime ?d"
      by (simp_all only: of_int_less_iff)
    then show ?thesis by simp
  qed
  have r1: "?d = \<lparr>status = ''online'', playersOnline = 120, maxPlayers = 200, ping = 80,
      uptime = 996\<rparr>"
    using st mp pl pg up by (cases ?d) simp
  have h': "\<forall>i. is_double (example_draws_offline i) \<and> 0 \<le> example_draws_offline i \<and>
      example_draws_offline i < 1"
    using example_draws_double by (simp add: example_draws_offline_def)
  have e': "example_draws_offline 0 = 3602879701896397 / 36028797018963968"
    "example_draws_offline 1 = 3 / 4"
    by (simp_all add: example_draws_offline_def)
  let ?o = "fst (fetchServerData example_draws_offline)"
  note q = fetchServerData_policy [OF h', unfolded Let_def e']
  have st': "status ?o = ''offline''" and mp': "maxPlayers ?o = 200"
    and pl': "playersOnline ?o = 0" and pg': "ping ?o = 0"
    using q by simp_all
  have up': "uptime ?o = 998"
  proof -
    have "995 + 4 * (3 / 4) - 1 / 2 - 1 / 2 ^ 42 < real_of_int (uptime ?o)"
      "real_of_int (uptime ?o) \<le> 995 + 4 * (3 / 4) + 1 / 2 + 1 / 2 ^ 42"
      using q by simp_all
    then have "real_of_int (uptime ?o) < real_of_int 999" "real_of_int 997 < real_of_int (uptime ?o)"
      by simp_all
    then have "uptime ?o < 999" "997 < uptime ?o"
      by (simp_all only: of_int_less_iff)
    then show ?thesis by simp
  qed
  have r2: "?o = \<lparr>status = ''offline'', playersOnline = 0, maxPlayers = 200, ping = 0,
      uptime = 998\<rparr>"
    using st' mp' pl' pg' up' by (cases ?o) simp
  show ?thesis
    using h r1 h' r2 by blast
qed

section \<open>Loading screen: properties\<close>

lemma run_until_idle: "timers s = [] \<Longrightarrow> run_until T s = s"
  by (subst run_until.simps) simp

lemma run_until_early: "timers s = [(d, k)] \<Longrightarrow> T < d \<Longrightarrow> run_until T s = s"
  by (subst run_until.simps) simp

lemma run_until_due:
  "timers s = [(d, k)] \<Longrightarrow> d \<le> T \<Longrightarrow> run_until T s = run_until T (fire (d, k) s)"
  by (subst run_until.simps) simp

lemma hide_timers:
  "hide (start + e) (new_LoadingManager (Some st) start) =
     (new_LoadingManager (Some st) start)\<lparr>timers := [(start + e + max 0 (1000 - e), FadeOut)]\<rparr>"
  by (simp add: hide_def new_LoadingManager_def setTimeout_loading_def Let_def)

text \<open>
  C5. For a loading manager constructed at time \<open>start\<close> (minimum duration 1000 ms)
  whose \<open>hide\<close> is called \<open>e\<close> ms later, the only pending timer is the fade, due
  \<open>max 0 (1000 - e)\<close> ms after the call, which is never before \<open>start + 1000\<close>; for
  \<open>e \<ge> 1000\<close> it is due at the call itself, for \<open>e = 200\<close> 800 ms after it. Running
  the event loop up to any time \<open>T\<close>: before the fade is due nothing has changed; from
  then on the opacity is \<open>0\<close>; and exactly 500 ms after the fade the element is taken
  out of the layout and the body is marked \<open>loaded\<close>, not earlier.
\<close>

theorem hide_schedule:
  "(let s = hide (start + e) (new_LoadingManager (Some st) start);
        fade_at = start + e + max 0 (1000 - e);
        r = run_until T s
    in timers s = [(fade_at, FadeOut)] \<and>
       start + 1000 \<le> fade_at \<and>
       (e \<ge> 1000 \<longrightarrow> fade_at = start + e) \<and>
       (e = 200 \<longrightarrow> fade_at = (start + e) + 800) \<and>
       (T < fade_at \<longrightarrow> loadingScreen r = Some st \<and> \<not> body_loaded r) \<and>
       (fade_at \<le> T \<and> T < fade_at + 500 \<longrightarrow>
          loadingScreen r = Some (st\<lparr>opacity := ''0''\<rparr>) \<and> \<not> body_loaded r) \<and>
       (fade_at + 500 \<le> T \<longrightarrow>
          loadingScreen r = Some (st\<lparr>opacity := ''0'', display := ''none''\<rparr>) \<and> body_loaded r))"
proof -
  define s where "s = hide (start + e) (new_LoadingManager (Some st) start)"
  define d where "d = start + e + max 0 (1000 - e)"
  have s: "s = (new_LoadingManager (Some st) start)\<lparr>timers := [(d, FadeOut)]\<rparr>"
    unfolding s_def d_def by (rule hide_timers)
  have ts: "timers s = [(d, FadeOut)]" by (simp add: s)
  define s1 where "s1 = fire (d, FadeOut) s"
  have s1: "s1 = (new_LoadingManager (Some st) start)
      \<lparr>loadingScreen := Some (st\<lparr>opacity := ''0''\<rparr>), timers := [(d + 500, RemoveFromLayout)]\<rparr>"
    by (simp add: s1_def s fire_def new_LoadingManager_def setTimeout_loading_def)
  have ts1: "timers s1 = [(d + 500, RemoveFromLayout)]" by (simp add: s1)
  define s2 where "s2 = fire (d + 500, RemoveFromLayout) s1"
  have s2: "s2 = (new_LoadingManager (Some st) start)
      \<lparr>loadingScreen := Some (st\<lparr>opacity := ''0'', display := ''none''\<rparr>), body_loaded := True\<rparr>"
    by (simp add: s2_def s1 fire_def new_LoadingManager_def)
  have ts2: "timers s2 = []" by (simp add: s2 new_LoadingManager_def)
  have early: "T < d \<Longrightarrow> run_until T s = s"
    using run_until_early [OF ts] by simp
  have mid: "d \<le> T \<Longrightarrow> T < d + 500 \<Longrightarrow> run_until T s = s1"
    using run_until_due [OF ts] run_until_early [OF ts1] by (simp add: s1_def)
  have late: "d + 500 \<le> T \<Longrightarrow> run_until T s = s2"
    using run_until_due [OF ts, of T] run_until_due [OF ts1, of T] run_until_idle [OF ts2, of T]
    by (simp add: s1_def s2_def)
  have a: "T < d \<longrightarrow> loadingScreen (run_until T s) = Some st \<and> \<not> body_loaded (run_until T s)"
    using early by (auto simp: s new_LoadingManager_def)
  have b: "d \<le> T \<and> T < d + 500 \<longrightarrow>
      loadingScreen (run_until T s) = Some (st\<lparr>opacity := ''0''\<rparr>) \<and> \<not> body_loaded (run_until T s)"
    using mid by (auto simp: s1 new_LoadingManager_def)
  have c: "d + 500 \<le> T \<longrightarrow>
      loadingScreen (run_until T s) = Some (st\<lparr>opacity := ''0'', display := ''none''\<rparr>) \<and>
      body_loaded (run_until T s)"
    using late by (auto simp: s2 new_LoadingManager_def)
  have ar: "start + 1000 \<le> d" "e \<ge> 1000 \<longrightarrow> d = start + e" "e = 200 \<longrightarrow> d = (start + e) + 800"
    by (auto simp: d_def)
  show ?thesis
    unfolding Let_def s_def [symmetric] d_def [symmetric]
    using ts a b c ar by simp
qed

theorem hide_schedule_witness:
  "(let st = \<lparr>opacity = ''1'', display = ''flex''\<rparr>;
        s = hide 200 (new_LoadingManager (Some st) 0)
    in timers s = [(1000, FadeOut)] \<and>
       loadingScreen (run_until 999 s) = Some st \<and>
       loadingScreen (run_until 1000 s) = Some \<lparr>opacity = ''0'', display = ''flex''\<rparr> \<and>
       \<not> body_loaded (run_until 1499 s) \<and>
       loadingScreen (run_until 1500 s) = Some \<lparr>opacity = ''0'', display = ''none''\<rparr> \<and>
       body_loaded (run_until 1500 s))"
  using hide_schedule [of 0 200 "\<lparr>opacity = ''1'', display = ''flex''\<rparr>" 999]
    hide_schedule [of 0 200 "\<lparr>opacity = ''1'', display = ''flex''\<rparr>" 1000]
    hide_schedule [of 0 200 "\<lparr>opacity = ''1'', display = ''flex''\<rparr>" 1499]
    hide_schedule [of 0 200 "\<lparr>opacity = ''1'', display = ''flex''\<rparr>" 1500]
  by (simp add: Let_def)

section \<open>Debounce: properties\<close>











section \<open>JSON: writing and reading back\<close>

lemma nat_to_string_nonempty: "nat_to_string n \<noteq> []"
  by (subst nat_to_string.simps) simp

lemma is_digit_digit_char: "d < 10 \<Longrightarrow> is_digit (digit_char d)"
proof -
  assume "d < 10"
  then have "d \<in> set [0..<10]" by simp
  then show ?thesis
    by (simp add: upt_rec is_digit_def digit_char_def) (elim disjE; simp)
qed

lemma digit_val_digit_char: "d < 10 \<Longrightarrow> digit_val (digit_char d) = d"
proof -
  assume "d < 10"
  then have "d \<in> set [0..<10]" by simp
  then show ?thesis
    by (simp add: upt_rec digit_val_def digit_char_def) (elim disjE; simp)
qed

lemma digit_char_zero: "d < 10 \<Longrightarrow> digit_char d = CHR ''0'' \<longleftrightarrow> d = 0"
proof -
  assume "d < 10"
  then have "d \<in> set [0..<10]" by simp
  then show ?thesis
    by (simp add: upt_rec digit_char_def) (elim disjE; simp)
qed

lemma nat_to_string_digits: "\<forall>c \<in> set (nat_to_string n). is_digit c"
proof (induction n rule: nat_to_string.induct)
  case (1 n)
  show ?case
  proof (cases "n < 10")
    case True
    then show ?thesis
      by (subst nat_to_string.simps) (simp add: is_digit_digit_char)
  next
    case False
    then show ?thesis
      using 1 by (subst nat_to_string.simps) (simp add: is_digit_digit_char)
  qed
qed

lemma digits_val_snoc: "digits_val (ds @ [c]) = 10 * digits_val ds + digit_val c"
  by (simp add: digits_val_def)

lemma digits_val_nat_to_string: "digits_val (nat_to_string n) = n"
proof (induction n rule: nat_to_string.induct)
  case (1 n)
  show ?case
  proof (cases "n < 10")
    case True
    then show ?thesis
      by (subst nat_to_string.simps) (simp add: digits_val_def digit_val_digit_char)
  next
    case False
    then show ?thesis
      using 1 by (subst nat_to_string.simps) (simp add: digits_val_snoc digit_val_digit_char)
  qed
qed

lemma nat_to_string_leading_zero:
  "hd (nat_to_string n) = CHR ''0'' \<Longrightarrow> nat_to_string n = ''0''"
proof (induction n rule: nat_to_string.induct)
  case (1 n)
  show ?case
  proof (cases "n < 10")
    case True
    with 1(2) have "n = 0"
      by (subst (asm) nat_to_string.simps) (simp add: digit_char_zero)
    then show ?thesis
      by (subst nat_to_string.simps) (simp add: digit_char_def)
  next
    case False
    have "hd (nat_to_string (n div 10)) = CHR ''0''"
      using 1(2) False nat_to_string_nonempty [of "n div 10"]
      by (subst (asm) nat_to_string.simps) simp
    from 1(1) [OF False this] have "digits_val (nat_to_string (n div 10)) = 0"
      by (simp add: digits_val_def digit_val_def)
    then have "n div 10 = 0" by (simp add: digits_val_nat_to_string)
    with False show ?thesis by simp
  qed
qed

lemma value_end_cases:
  assumes "value_end r"
  obtains "r = []" | r' where "r = CHR '','' # r'" | r' where "r = CHR '']'' # r'"
    | r' where "r = CHR ''}'' # r'"
  using assms by (cases r) (auto simp: value_end_def)

lemma value_end_no_digit: "value_end r \<Longrightarrow> takeWhile is_digit r = [] \<and> dropWhile is_digit r = r"
  by (erule value_end_cases) (simp_all add: is_digit_def)

lemma value_end_no_frac: "value_end r \<Longrightarrow> r \<noteq> [] \<Longrightarrow> hd r \<notin> set ''.eE''"
  by (erule value_end_cases) simp_all

lemma value_end_skip_ws: "value_end r \<Longrightarrow> skip_ws r = r"
  by (erule value_end_cases) (simp_all add: skip_ws_def is_ws_def)

lemma parse_nat_nat_to_string:
  assumes "value_end r"
  shows "parse_nat (nat_to_string n @ r) = Some (n, r)"
proof -
  have tw: "takeWhile is_digit (nat_to_string n @ r) = nat_to_string n"
    using nat_to_string_digits [of n] value_end_no_digit [OF assms]
    by (simp add: takeWhile_append2)
  have dw: "dropWhile is_digit (nat_to_string n @ r) = r"
    using nat_to_string_digits [of n] value_end_no_digit [OF assms]
    by (simp add: dropWhile_append2)
  have lead: "\<not> (hd (nat_to_string n) = CHR ''0'' \<and> tl (nat_to_string n) \<noteq> [])"
    using nat_to_string_leading_zero [of n] by auto
  have frac: "\<not> (r \<noteq> [] \<and> hd r \<in> set ''.eE'')"
    using value_end_no_frac [OF assms] by blast
  show ?thesis
    unfolding parse_nat_def tw dw Let_def
    using lead frac nat_to_string_nonempty [of n]
    by (simp only: if_False digits_val_nat_to_string)
qed

lemma hd_nat_to_string_digit: "is_digit (hd (nat_to_string n))"
  using nat_to_string_digits [of n] nat_to_string_nonempty [of n]
  by (cases "nat_to_string n") auto

lemma parse_number_int_to_string:
  assumes "value_end r"
  shows "parse_number (int_to_string i @ r) = Some (JNum i, r)"
proof (cases "i < 0")
  case True
  then show ?thesis
    by (simp add: parse_number_def int_to_string_def parse_nat_nat_to_string [OF assms])
next
  case False
  obtain c cs where s: "nat_to_string (nat i) = c # cs"
    using nat_to_string_nonempty [of "nat i"] by (cases "nat_to_string (nat i)") auto
  have "is_digit c" using hd_nat_to_string_digit [of "nat i"] by (simp add: s)
  then have c: "c \<noteq> CHR ''-''" by (auto simp: is_digit_def)
  have "parse_nat (c # cs @ r) = Some (nat i, r)"
    using parse_nat_nat_to_string [OF assms, of "nat i"] by (simp add: s)
  then show ?thesis
    using False c by (simp add: parse_number_def int_to_string_def s)
qed

lemma hex_val_hex_char: "d < 16 \<Longrightarrow> hex_val (hex_char d) = Some d"
proof -
  assume "d < 16"
  then have "d \<in> set [0..<16]" by simp
  then show ?thesis
    by (simp add: upt_rec hex_val_def hex_char_def is_digit_def) (elim disjE; simp)
qed

lemma unicode_escape_control:
  assumes "(of_char c :: nat) < 32"
  shows "unicode_escape (CHR ''0'') (CHR ''0'') (hex_char (of_char c div 16))
           (hex_char (of_char c mod 16)) = Some c"
proof -
  have z: "hex_val (CHR ''0'') = Some 0" by (simp add: hex_val_def is_digit_def)
  have hi: "hex_val (hex_char (of_char c div 16)) = Some (of_char c div 16)"
    using assms by (intro hex_val_hex_char) simp
  have lo: "hex_val (hex_char (of_char c mod 16)) = Some (of_char c mod 16)"
    by (intro hex_val_hex_char) simp
  show ?thesis
    using assms by (simp add: unicode_escape_def z hi lo)
qed

lemma parse_chars_escape: "parse_chars (json_escape c @ t) = cons_result c (parse_chars t)"
proof -
  consider (quote) "c = CHR 0x22" | (bs) "c = CHR 0x5C" | (b) "c = CHR 0x08" | (f) "c = CHR 0x0C"
    | (n) "c = CHR 0x0A" | (r) "c = CHR 0x0D" | (t) "c = CHR 0x09"
    | (ctl) "c \<notin> {CHR 0x22, CHR 0x5C, CHR 0x08, CHR 0x0C, CHR 0x0A, CHR 0x0D, CHR 0x09}"
        "(of_char c :: nat) < 32"
    | (plain) "c \<notin> {CHR 0x22, CHR 0x5C, CHR 0x08, CHR 0x0C, CHR 0x0A, CHR 0x0D, CHR 0x09}"
        "\<not> (of_char c :: nat) < 32"
    by blast
  then show ?thesis
  proof cases
    case ctl
    then show ?thesis
      by (simp add: json_escape_def simple_escape_def unicode_escape_control)
  next
    case plain
    then show ?thesis
      by (simp add: json_escape_def)
  qed (simp_all add: json_escape_def simple_escape_def)
qed

lemma parse_chars_quoted:
  "parse_chars (concat (map json_escape s) @ CHR 0x22 # r) = Some (s, r)"
  by (induction s) (simp_all add: parse_chars_escape cons_result_def)

lemma QuoteJSONString_append:
  "QuoteJSONString s @ r = CHR 0x22 # (concat (map json_escape s) @ CHR 0x22 # r)"
  by (simp add: QuoteJSONString_def)

lemma int_to_string_hd: "\<exists>c cs. int_to_string i = c # cs \<and> (c = CHR ''-'' \<or> is_digit c)"
proof (cases "i < 0")
  case True
  then show ?thesis by (simp add: int_to_string_def)
next
  case False
  obtain c cs where s: "nat_to_string (nat i) = c # cs"
    using nat_to_string_nonempty [of "nat i"] by (cases "nat_to_string (nat i)") auto
  have "is_digit c" using hd_nat_to_string_digit [of "nat i"] by (simp add: s)
  then show ?thesis using False by (simp add: int_to_string_def s)
qed

lemma JSON_stringify_hd: "\<exists>c cs. JSON_stringify v = c # cs \<and> value_start c"
proof (cases v)
  case (JNum i)
  obtain c cs where "int_to_string i = c # cs" "c = CHR ''-'' \<or> is_digit c"
    using int_to_string_hd by blast
  then show ?thesis
    by (auto simp: JNum value_start_def is_ws_def is_digit_def)
qed (auto simp: value_start_def is_ws_def QuoteJSONString_def)

lemma skip_ws_start: "value_start c \<Longrightarrow> skip_ws (c # cs) = c # cs"
  by (simp add: skip_ws_def value_start_def)

lemma parse_value_number:
  assumes "value_end r"
  shows "parse_value (Suc n) (int_to_string i @ r) = Some (JNum i, r)"
proof -
  obtain c cs where s: "int_to_string i = c # cs" and c: "c = CHR ''-'' \<or> is_digit c"
    using int_to_string_hd by blast
  have ws: "skip_ws (c # cs @ r) = c # cs @ r"
    using c by (auto simp: skip_ws_def is_ws_def is_digit_def)
  have nc: "c \<noteq> CHR ''n''" "c \<noteq> CHR ''t''" "c \<noteq> CHR ''f''" "c \<noteq> CHR 0x22" "c \<noteq> CHR ''[''"
    "c \<noteq> CHR ''{''"
    using c by (auto simp: is_digit_def)
  have "parse_number (c # cs @ r) = Some (JNum i, r)"
    using parse_number_int_to_string [OF assms, of i] by (simp add: s)
  then show ?thesis
    by (simp add: s ws nc)
qed

lemma parse_elements_stringify:
  assumes "xs \<noteq> []"
    and "\<And>x n r. x \<in> set xs \<Longrightarrow> cost x \<le> n \<Longrightarrow> value_end r \<Longrightarrow>
           parse_value n (JSON_stringify x @ r) = Some (x, r)"
    and "sum_list (map (\<lambda>x. Suc (cost x)) xs) \<le> n"
  shows "parse_elements n (join_comma (map JSON_stringify xs) @ CHR '']'' # r) = Some (xs, r)"
  using assms
proof (induction xs arbitrary: n rule: list_nonempty_induct)
  case (single x)
  then obtain m where n: "n = Suc m" and m: "cost x \<le> m"
    by (cases n) auto
  have "parse_value m (JSON_stringify x @ CHR '']'' # r) = Some (x, CHR '']'' # r)"
    by (rule single(1)) (simp_all add: m value_end_def)
  then show ?case
    by (simp add: n skip_ws_def is_ws_def)
next
  case (cons x xs)
  then obtain m where n: "n = Suc m" and m: "cost x \<le> m"
      "sum_list (map (\<lambda>x. Suc (cost x)) xs) \<le> m"
    by (cases n) auto
  obtain y ys where xs: "xs = y # ys" using cons(1) by (cases xs) auto
  let ?rest = "join_comma (map JSON_stringify xs) @ CHR '']'' # r"
  have pv: "parse_value m (JSON_stringify x @ CHR '','' # ?rest) = Some (x, CHR '','' # ?rest)"
    by (rule cons(3)) (simp_all add: m value_end_def)
  have pe: "parse_elements m ?rest = Some (xs, r)"
    by (rule cons(2)) (use cons(3) m in auto)
  have "join_comma (map JSON_stringify (x # xs)) @ CHR '']'' # r
      = JSON_stringify x @ CHR '','' # ?rest"
    by (simp add: xs)
  then show ?case
    by (simp add: n pv pe skip_ws_def is_ws_def cons_result_def del: join_comma.simps)
qed

lemma parse_members_stringify:
  assumes "kvs \<noteq> []"
    and "\<And>kv n r. kv \<in> set kvs \<Longrightarrow> cost (snd kv) \<le> n \<Longrightarrow> value_end r \<Longrightarrow>
           parse_value n (JSON_stringify (snd kv) @ r) = Some (snd kv, r)"
    and "sum_list (map (\<lambda>kv. Suc (cost (snd kv))) kvs) \<le> n"
  shows "parse_members n
           (join_comma (map (\<lambda>kv. QuoteJSONString (fst kv) @ CHR '':'' # JSON_stringify (snd kv)) kvs)
            @ CHR ''}'' # r) = Some (kvs, r)"
  using assms
proof (induction kvs arbitrary: n rule: list_nonempty_induct)
  case (single kv)
  then obtain m where n: "n = Suc m" and m: "cost (snd kv) \<le> m"
    by (cases n) auto
  have pv: "parse_value m (JSON_stringify (snd kv) @ CHR ''}'' # r) = Some (snd kv, CHR ''}'' # r)"
    by (rule single(1)) (simp_all add: m value_end_def)
  show ?case
    by (simp add: n QuoteJSONString_def skip_ws_def is_ws_def parse_chars_quoted pv)
next
  case (cons kv kvs)
  then obtain m where n: "n = Suc m" and m: "cost (snd kv) \<le> m"
      "sum_list (map (\<lambda>kv. Suc (cost (snd kv))) kvs) \<le> m"
    by (cases n) auto
  obtain y ys where kvs: "kvs = y # ys" using cons(1) by (cases kvs) auto
  let ?f = "\<lambda>kv. QuoteJSONString (fst kv) @ CHR '':'' # JSON_stringify (snd kv)"
  let ?rest = "join_comma (map ?f kvs) @ CHR ''}'' # r"
  have pv: "parse_value m (JSON_stringify (snd kv) @ CHR '','' # ?rest)
      = Some (snd kv, CHR '','' # ?rest)"
    by (rule cons(3)) (simp_all add: m value_end_def)
  have pm: "parse_members m ?rest = Some (kvs, r)"
    by (rule cons(2)) (use cons(3) m in auto)
  have "join_comma (map ?f (kv # kvs)) @ CHR ''}'' # r
      = CHR 0x22 # (concat (map json_escape (fst kv)) @ CHR 0x22 # CHR '':'' #
          JSON_stringify (snd kv) @ CHR '','' # ?rest)"
    by (simp add: kvs QuoteJSONString_def)
  then show ?case
    by (simp add: n pv pm skip_ws_def is_ws_def cons_result_def parse_chars_quoted
        del: join_comma.simps)
qed

lemma parse_value_stringify:
  "cost v \<le> n \<Longrightarrow> value_end r \<Longrightarrow> parse_value n (JSON_stringify v @ r) = Some (v, r)"
proof (induction v arbitrary: n r)
  case JNull
  then show ?case by (cases n) (simp_all add: skip_ws_def is_ws_def)
next
  case (JBool b)
  then show ?case by (cases n) (simp_all add: skip_ws_def is_ws_def)
next
  case (JNum i)
  then obtain m where "n = Suc m" by (cases n) auto
  then show ?case
    using parse_value_number [OF JNum.prems(2), of m i] by (simp del: parse_value.simps)
next
  case (JStr s)
  then show ?case
    by (cases n) (simp_all add: QuoteJSONString_def skip_ws_def is_ws_def parse_chars_quoted)
next
  case (JArr xs)
  from JArr.prems obtain m where n: "n = Suc m"
    and m: "sum_list (map (\<lambda>x. Suc (cost x)) xs) \<le> m"
    by (cases n) auto
  show ?case
  proof (cases "xs = []")
    case True
    then show ?thesis by (simp add: n skip_ws_def is_ws_def)
  next
    case False
    then obtain y ys where xs: "xs = y # ys" by (cases xs) auto
    obtain c cs where hd: "JSON_stringify y = c # cs" "value_start c"
      using JSON_stringify_hd by blast
    have "\<exists>t. join_comma (map JSON_stringify xs) @ CHR '']'' # r = c # t"
      by (cases ys) (simp_all add: xs hd)
    then obtain t where t: "join_comma (map JSON_stringify xs) @ CHR '']'' # r = c # t" ..
    have pe: "parse_elements m (c # t) = Some (xs, r)"
      unfolding t [symmetric]
      by (rule parse_elements_stringify [OF False _ m]) (rule JArr.IH)
    have c: "skip_ws (c # t) = c # t" "c \<noteq> CHR '']''"
      using hd(2) by (simp_all add: skip_ws_def value_start_def)
    have o: "skip_ws (CHR ''['' # c # t) = CHR ''['' # c # t"
      by (simp add: skip_ws_def is_ws_def)
    show ?thesis
      by (simp add: n t pe c o)
  qed
next
  case (JObj kvs)
  from JObj.prems obtain m where n: "n = Suc m"
    and m: "sum_list (map (\<lambda>kv. Suc (cost (snd kv))) kvs) \<le> m"
    by (cases n) auto
  let ?f = "\<lambda>kv. QuoteJSONString (fst kv) @ CHR '':'' # JSON_stringify (snd kv)"
  show ?case
  proof (cases "kvs = []")
    case True
    then show ?thesis by (simp add: n skip_ws_def is_ws_def)
  next
    case False
    then obtain y ys where kvs: "kvs = y # ys" by (cases kvs) auto
    have "\<exists>t. join_comma (map ?f kvs) @ CHR ''}'' # r = CHR 0x22 # t"
      by (cases ys) (simp_all add: kvs QuoteJSONString_def)
    then obtain t where t: "join_comma (map ?f kvs) @ CHR ''}'' # r = CHR 0x22 # t" ..
    have ih: "\<And>kv n r. kv \<in> set kvs \<Longrightarrow> cost (snd kv) \<le> n \<Longrightarrow> value_end r \<Longrightarrow>
           parse_value n (JSON_stringify (snd kv) @ r) = Some (snd kv, r)"
    proof -
      fix kv :: "string \<times> jsval" and n r
      assume a: "kv \<in> set kvs" "cost (snd kv) \<le> n" "value_end r"
      have "snd kv \<in> Basic_BNFs.snds kv" by (cases kv) simp
      from JObj.IH [OF a(1) this a(2,3)]
      show "parse_value n (JSON_stringify (snd kv) @ r) = Some (snd kv, r)" .
    qed
    have pm: "parse_members m (CHR 0x22 # t) = Some (kvs, r)"
      unfolding t [symmetric]
      by (rule parse_members_stringify [OF False ih m])
    have o: "skip_ws (CHR ''{'' # CHR 0x22 # t) = CHR ''{'' # CHR 0x22 # t"
      "skip_ws (CHR 0x22 # t) = CHR 0x22 # t"
      by (simp_all add: skip_ws_def is_ws_def)
    show ?thesis
      by (simp add: n t pm o)
  qed
qed

lemma length_join_comma:
  "sum_list (map (\<lambda>y. Suc (length y)) ys) \<le> Suc (length (join_comma ys))"
  by (induction ys rule: join_comma.induct) simp_all

lemma cost_le_length: "cost v \<le> length (JSON_stringify v)"
proof (induction v)
  case (JArr xs)
  have "sum_list (map (\<lambda>x. Suc (cost x)) xs)
      \<le> sum_list (map (\<lambda>x. Suc (length (JSON_stringify x))) xs)"
    by (rule sum_list_mono) (simp add: JArr.IH)
  also have "\<dots> = sum_list (map (\<lambda>y. Suc (length y)) (map JSON_stringify xs))"
    by (simp add: comp_def)
  also have "\<dots> \<le> Suc (length (join_comma (map JSON_stringify xs)))"
    by (rule length_join_comma)
  finally show ?case by simp
next
  case (JObj kvs)
  let ?f = "\<lambda>kv. QuoteJSONString (fst kv) @ CHR '':'' # JSON_stringify (snd kv)"
  have "sum_list (map (\<lambda>kv. Suc (cost (snd kv))) kvs)
      \<le> sum_list (map (\<lambda>kv. Suc (length (?f kv))) kvs)"
  proof (rule sum_list_mono)
    fix kv assume a: "kv \<in> set kvs"
    have "snd kv \<in> Basic_BNFs.snds kv" by (cases kv) simp
    from JObj.IH [OF a this] show "Suc (cost (snd kv)) \<le> Suc (length (?f kv))" by simp
  qed
  also have "\<dots> = sum_list (map (\<lambda>y. Suc (length y)) (map ?f kvs))"
    by (simp add: comp_def)
  also have "\<dots> \<le> Suc (length (join_comma (map ?f kvs)))"
    by (rule length_join_comma)
  finally show ?case by simp
next
  case (JNum i)
  obtain c cs where "int_to_string i = c # cs" using int_to_string_hd by blast
  then show ?case by simp
qed (simp_all add: QuoteJSONString_def)


lemma JSON_parse_stringify: "JSON_parse (JSON_stringify v) = Inr v"
proof -
  have "cost v \<le> Suc (2 * length (JSON_stringify v))"
    using cost_le_length [of v] by simp
  then have "parse_value (Suc (2 * length (JSON_stringify v))) (JSON_stringify v @ []) = Some (v, [])"
    by (rule parse_value_stringify) (simp add: value_end_def)
  then show ?thesis
    by (simp add: JSON_parse_def skip_ws_def del: parse_value.simps)
qed

section \<open>Analytics: properties\<close>

lemma scrollDepth_page_at: "scrollDepth (page_at p) = Fin p"
  by (simp add: scrollDepth_def page_at_def)

lemma int_to_string_inj: "int_to_string a = int_to_string b \<Longrightarrow> a = b"
proof -
  assume e: "int_to_string a = int_to_string b"
  have "parse_number (int_to_string a @ []) = Some (JNum a, [])"
    by (rule parse_number_int_to_string) (simp add: value_end_def)
  moreover have "parse_number (int_to_string b @ []) = Some (JNum b, [])"
    by (rule parse_number_int_to_string) (simp add: value_end_def)
  ultimately show "a = b" using e by simp
qed

lemma js_gt_trans:
  "js_gt a b \<Longrightarrow> b = Fin d \<or> js_gt b (Fin d) \<Longrightarrow> js_gt a (Fin d)"
  by (cases a; cases b) auto

text \<open>
  The handler never writes the same line twice: the depths it logs increase strictly.
\<close>

lemma scroll_log_increasing:
  "\<exists>ds. scrollLog (scroll_run vs initial_analytics) = map (\<lambda>d. int_to_string d @ ''%'') ds \<and>
        sorted_wrt (<) ds \<and>
        (\<forall>d\<in>set ds. maxScrollDepth (scroll_run vs initial_analytics) = Fin d \<or>
                   js_gt (maxScrollDepth (scroll_run vs initial_analytics)) (Fin d))"
proof (induction vs rule: rev_induct)
  case Nil
  show ?case by (simp add: scroll_run_def initial_analytics_def)
next
  case (snoc v vs)
  let ?a = "scroll_run vs initial_analytics"
  from snoc obtain ds where ds: "scrollLog ?a = map (\<lambda>d. int_to_string d @ ''%'') ds"
      "sorted_wrt (<) ds"
      "\<forall>d\<in>set ds. maxScrollDepth ?a = Fin d \<or> js_gt (maxScrollDepth ?a) (Fin d)"
    by blast
  have run: "scroll_run (vs @ [v]) initial_analytics = onScroll v ?a"
    by (simp add: scroll_run_def)
  show ?case
  proof (cases "js_gt (scrollDepth v) (maxScrollDepth ?a)")
    case False
    then have "onScroll v ?a = ?a" by (simp add: onScroll_def)
    then show ?thesis using ds unfolding run by auto
  next
    case True
    then have above: "\<forall>d\<in>set ds. js_gt (scrollDepth v) (Fin d)"
      using ds(3) js_gt_trans by blast
    show ?thesis
    proof (cases "js_mod25_is_zero (scrollDepth v)")
      case False
      then have "scrollLog (onScroll v ?a) = scrollLog ?a"
        "maxScrollDepth (onScroll v ?a) = scrollDepth v"
        using True by (simp_all add: onScroll_def)
      then show ?thesis using ds above unfolding run by auto
    next
      case mz: True
      then obtain n where n: "scrollDepth v = Fin n" by (cases "scrollDepth v") auto
      have "scrollLog (onScroll v ?a) = map (\<lambda>d. int_to_string d @ ''%'') (ds @ [n])"
        "maxScrollDepth (onScroll v ?a) = Fin n"
        using True mz by (simp_all add: onScroll_def n ds(1))
      moreover have "sorted_wrt (<) (ds @ [n])"
        using ds(2) above by (auto simp: sorted_wrt_append n)
      moreover have "\<forall>d\<in>set (ds @ [n]). Fin n = Fin d \<or> js_gt (Fin n) (Fin d)"
        using above by (auto simp: n)
      ultimately show ?thesis unfolding run by metis
    qed
  qed
qed

lemma scroll_log_distinct: "distinct (scrollLog (scroll_run vs initial_analytics))"
proof -
  obtain ds where ds: "scrollLog (scroll_run vs initial_analytics) = map (\<lambda>d. int_to_string d @ ''%'') ds"
      "sorted_wrt (<) ds"
    using scroll_log_increasing by blast
  have "distinct ds" using ds(2) by (simp add: strict_sorted_iff)
  moreover have "inj_on (\<lambda>d. int_to_string d @ ''%'') (set ds)"
    by (auto simp: inj_on_def dest: int_to_string_inj)
  ultimately show ?thesis by (simp add: ds(1) distinct_map)
qed

text \<open>
  C2. On scroll events whose depths are 30, 55, 80 and 100 percent, starting from a
  maximum depth of 0, the handler writes a single line, for 100: the depths 30, 55 and
  80 are new maxima but not multiples of 25, so the milestones 25, 50 and 75 that they
  pass are never logged.
\<close>

theorem scroll_milestones_skipped:
  "scroll_run [page_at 30, page_at 55, page_at 80, page_at 100] initial_analytics =
     \<lparr>maxScrollDepth = Fin 100, scrollLog = [''100%'']\<rparr>"
  by (simp add: scroll_run_def onScroll_def scrollDepth_page_at initial_analytics_def
      int_to_string_def nat_to_string.simps digit_char_def)

section \<open>StorageManager: properties\<close>

lemma remove_each_ok:
  "ls_available ls \<Longrightarrow>
   remove_each ks ls = (Inr (), ls\<lparr>ls_items := filter (\<lambda>kv. fst kv \<notin> set ks) (ls_items ls)\<rparr>)"
proof (induction ks arbitrary: ls)
  case Nil
  then show ?case by simp
next
  case (Cons k ks)
  have "ls_available (ls\<lparr>ls_items := filter (\<lambda>kv. fst kv \<noteq> k) (ls_items ls)\<rparr>)"
    using Cons.prems by simp
  from Cons.IH [OF this] show ?case
    using Cons.prems by (simp add: ls_removeItem_def conj_commute)
qed

lemma clear_items:
  assumes "ls_available ls"
  shows "StorageManager_clear ls =
    (True, ls\<lparr>ls_items := filter (\<lambda>kv. \<not> prefix sm_prefix (fst kv)) (ls_items ls)\<rparr>)"
proof -
  have "filter (\<lambda>kv. fst kv \<notin> set (filter (prefix sm_prefix) (map fst (ls_items ls)))) (ls_items ls)
      = filter (\<lambda>kv. \<not> prefix sm_prefix (fst kv)) (ls_items ls)"
    by (rule filter_cong) auto
  then show ?thesis
    using assms by (simp add: StorageManager_clear_def ls_keys_def remove_each_ok Let_def)
qed

text \<open>
  C7. On an accessible store, whatever it holds, \<open>clear()\<close> returns \<open>true\<close>, and
  afterwards a key that starts with \<open>kurdish_city_\<close> has no entry while every other key
  has the value it had before; the store stays accessible and keeps its quota.
\<close>

theorem clear_removes_prefixed:
  assumes "ls_available ls"
  shows "fst (StorageManager_clear ls) = True \<and>
         (\<forall>k. map_of (ls_items (snd (StorageManager_clear ls))) k =
              (if prefix sm_prefix k then None else map_of (ls_items ls) k)) \<and>
         ls_available (snd (StorageManager_clear ls)) \<and>
         ls_quota (snd (StorageManager_clear ls)) = ls_quota ls"
proof -
  have "map_of (filter (\<lambda>kv. \<not> prefix sm_prefix (fst kv)) xs) k =
      (if prefix sm_prefix k then None else map_of xs k)" for xs :: "(string \<times> string) list" and k
    by (induction xs) auto
  then show ?thesis
    using assms by (simp add: clear_items)
qed

theorem clear_removes_prefixed_witness:
  "ls_available example_store \<and>
   fst (StorageManager_clear example_store) = True \<and>
   map_of (ls_items (snd (StorageManager_clear example_store))) ''kurdish_city_theme'' = None \<and>
   map_of (ls_items (snd (StorageManager_clear example_store))) ''kurdish_city_'' = None \<and>
   map_of (ls_items (snd (StorageManager_clear example_store))) ''other'' = Some ''1'' \<and>
   map_of (ls_items (snd (StorageManager_clear example_store))) ''Kurdish_city_a'' = Some ''y''"
proof -
  have h: "ls_available example_store" by (simp add: example_store_def)
  show ?thesis
    using h clear_removes_prefixed [OF h]
    by (simp add: example_store_def sm_prefix_def)
qed




section \<open>ThemeManager: properties\<close>

text \<open>
  C9. After \<open>toggleTheme()\<close>, whatever the current theme was (any value read from the
  store) and whether or not the store accepts the write, the current theme is the
  string \<open>dark\<close> or the string \<open>light\<close> and the \<open>data-theme\<close> attribute equals it:
  \<open>dark\<close> toggles to \<open>light\<close>, and every other value toggles to \<open>dark\<close>.
\<close>

theorem toggleTheme_two_states:
  "(let p' = toggleTheme p in
      (currentTheme p' = JStr ''dark'' \<or> currentTheme p' = JStr ''light'') \<and>
      data_theme p' = Some (ToString (currentTheme p')) \<and>
      (data_theme p' = Some ''dark'' \<or> data_theme p' = Some ''light'') \<and>
      (currentTheme p = JStr ''dark'' \<longrightarrow> currentTheme p' = JStr ''light'') \<and>
      (currentTheme p \<noteq> JStr ''dark'' \<longrightarrow> currentTheme p' = JStr ''dark''))"
  by (simp add: toggleTheme_def applyTheme_def showNotification_def Let_def)

theorem toggleTheme_two_states_witness:
  "currentTheme (new_ThemeManager example_store 1024) = JStr ''blue'' \<and>
   currentTheme (toggleTheme (new_ThemeManager example_store 1024)) = JStr ''dark'' \<and>
   data_theme (toggleTheme (new_ThemeManager example_store 1024)) = Some ''dark'' \<and>
   currentTheme (toggleTheme (toggleTheme (new_ThemeManager example_store 1024))) = JStr ''light'' \<and>
   data_theme (toggleTheme (toggleTheme (new_ThemeManager example_store 1024))) = Some ''light''"
proof -
  have b: "currentTheme (new_ThemeManager example_store 1024) = JStr ''blue''"
    by code_simp
  show ?thesis
    using b toggleTheme_two_states [of "new_ThemeManager example_store 1024"]
      toggleTheme_two_states [of "toggleTheme (new_ThemeManager example_store 1024)"]
    by (simp add: Let_def)
qed

section \<open>The Konami code: properties\<close>

lemma JSON_stringify_inj: "JSON_stringify a = JSON_stringify b \<longleftrightarrow> a = b"
proof
  assume "JSON_stringify a = JSON_stringify b"
  then have "JSON_parse (JSON_stringify a) = JSON_parse (JSON_stringify b)" by simp
  then show "a = b" by (simp add: JSON_parse_stringify)
qed simp

lemma stringify_codes_eq:
  "JSON_stringify (JArr (map JStr xs)) = JSON_stringify (JArr (map JStr ys)) \<longleftrightarrow> xs = ys"
  unfolding JSON_stringify_inj by (simp add: inj_map_eq_map inj_on_def)

lemma length_targetCode: "length targetCode = 10"
  by (simp add: targetCode_def)

lemma keydown_buffer:
  "keydown c s =
     (let buf = (if length (konamiCode s) \<ge> 10 then tl (konamiCode s @ [c]) else konamiCode s @ [c])
      in if buf = targetCode
         then \<lparr>konamiCode = [], konamiActivations = Suc (konamiActivations s)\<rparr>
         else \<lparr>konamiCode = buf, konamiActivations = konamiActivations s\<rparr>)"
  by (simp add: keydown_def Let_def stringify_codes_eq length_targetCode activateKonamiEffect_def
      del: JSON_stringify.simps)

lemma last_codes_exact: "length ys = n \<Longrightarrow> last_codes n (xs @ ys) = ys"
  by (simp add: last_codes_def)

lemma last_codes_short: "length ys \<le> n \<Longrightarrow> last_codes n ys = ys"
  by (simp add: last_codes_def)

lemma last_codes_overlap:
  "length t = n \<Longrightarrow> length b \<le> n \<Longrightarrow> last_codes n (q @ t @ b) = drop (length b) t @ b"
  by (simp add: last_codes_def)

lemma targetCode_no_border:
  assumes "0 < j" "j < 10" "length b = j"
  shows "drop j targetCode @ b \<noteq> targetCode"
proof
  assume eq: "drop j targetCode @ b = targetCode"
  have "take (10 - j) (drop j targetCode @ b) = drop j targetCode"
    by (simp add: length_targetCode)
  then have e: "take (10 - j) targetCode = drop j targetCode"
    by (simp only: eq)
  have "j \<in> set [1..<10]" using assms by simp
  then have "take (10 - j) targetCode \<noteq> drop j targetCode"
    by (simp add: upt_rec) (elim disjE; simp add: targetCode_def)
  with e show False by simp
qed

lemma konami_fire_iff:
  assumes "konami_inv keys s"
  shows "(if length (konamiCode s) \<ge> 10 then tl (konamiCode s @ [c]) else konamiCode s @ [c])
           = targetCode
         \<longleftrightarrow> last_codes 10 (keys @ [c]) = targetCode"
proof -
  let ?B = "konamiCode s"
  from assms obtain pre where pre: "keys = pre @ ?B" "length ?B \<le> 10"
      "length ?B < 10 \<longrightarrow> pre = [] \<or> suffix targetCode pre"
    by (auto simp: konami_inv_def length_targetCode)
  show ?thesis
  proof (cases "length ?B \<ge> 10")
    case True
    then have len: "length ?B = 10" using pre(2) by simp
    then obtain h B' where B: "?B = h # B'" by (cases ?B) auto
    have "keys @ [c] = (pre @ [h]) @ (B' @ [c])" by (simp add: pre(1) B)
    moreover have "length (B' @ [c]) = 10" using len B by simp
    ultimately have "last_codes 10 (keys @ [c]) = B' @ [c]"
      by (simp only: last_codes_exact)
    then show ?thesis using True by (simp add: B)
  next
    case False
    show ?thesis
    proof (cases "length (?B @ [c]) = 10")
      case True
      have "last_codes 10 (keys @ [c]) = ?B @ [c]"
        using last_codes_exact [OF True, of pre] by (simp add: pre(1))
      then show ?thesis using False by simp
    next
      case short: False
      then have j: "0 < length (?B @ [c])" "length (?B @ [c]) < 10"
        using False by simp_all
      have ne: "?B @ [c] \<noteq> targetCode"
        using short by (metis length_targetCode)
      from pre(3) False have "pre = [] \<or> suffix targetCode pre" by simp
      then have "last_codes 10 (keys @ [c]) \<noteq> targetCode"
      proof
        assume "pre = []"
        then have "last_codes 10 (keys @ [c]) = ?B @ [c]"
          using j(2) by (simp add: pre(1) last_codes_short)
        then show ?thesis using ne by simp
      next
        assume "suffix targetCode pre"
        then obtain q where q: "pre = q @ targetCode" by (auto simp: suffix_def)
        have "last_codes 10 (q @ targetCode @ (?B @ [c])) = drop (length (?B @ [c])) targetCode @ (?B @ [c])"
          by (rule last_codes_overlap) (use j in \<open>simp_all add: length_targetCode\<close>)
        then have "last_codes 10 (keys @ [c]) = drop (length (?B @ [c])) targetCode @ (?B @ [c])"
          by (simp add: pre(1) q)
        then show ?thesis
          using targetCode_no_border [OF j refl] by simp
      qed
      then show ?thesis using False ne by simp
    qed
  qed
qed

lemma konami_inv_step:
  assumes "konami_inv keys s"
  shows "konami_inv (keys @ [c]) (keydown c s)"
proof -
  let ?B = "konamiCode s"
  from assms obtain pre where pre: "keys = pre @ ?B" "length ?B \<le> 10"
      "length ?B < 10 \<longrightarrow> pre = [] \<or> suffix targetCode pre"
    by (auto simp: konami_inv_def length_targetCode)
  define buf where "buf = (if length ?B \<ge> 10 then tl (?B @ [c]) else ?B @ [c])"
  have "\<exists>pre'. keys @ [c] = pre' @ buf \<and> length buf \<le> 10 \<and>
      (length buf < 10 \<longrightarrow> pre' = [] \<or> suffix targetCode pre')"
  proof (cases "length ?B \<ge> 10")
    case True
    then have len: "length ?B = 10" using pre(2) by simp
    then obtain h B' where B: "?B = h # B'" by (cases ?B) auto
    have "keys @ [c] = (pre @ [h]) @ buf" "length buf = 10"
      using len by (simp_all add: buf_def pre(1) B)
    then show ?thesis by (intro exI [of _ "pre @ [h]"]) simp
  next
    case False
    then have "keys @ [c] = pre @ buf" "length buf \<le> 10"
      by (simp_all add: buf_def pre(1))
    then show ?thesis using pre(3) False by (intro exI [of _ pre]) simp
  qed
  then obtain pre' where pre': "keys @ [c] = pre' @ buf" "length buf \<le> 10"
      "length buf < 10 \<longrightarrow> pre' = [] \<or> suffix targetCode pre'"
    by blast
  show ?thesis
  proof (cases "buf = targetCode")
    case True
    have "suffix targetCode (keys @ [c])"
      by (simp add: pre'(1) True suffix_def)
    then show ?thesis
      using True by (auto simp: keydown_buffer buf_def [symmetric] konami_inv_def)
  next
    case False
    then show ?thesis
      using pre' by (auto simp: keydown_buffer buf_def [symmetric] konami_inv_def length_targetCode)
  qed
qed

lemma konami_run_snoc: "konami_run (keys @ [c]) = keydown c (konami_run keys)"
  by (simp add: konami_run_def)

lemma konami_inv_run: "konami_inv keys (konami_run keys)"
proof (induction keys rule: rev_induct)
  case Nil
  show ?case by (simp add: konami_run_def konami_inv_def new_EasterEggManager_def)
next
  case (snoc c keys)
  then show ?case by (simp add: konami_run_snoc konami_inv_step)
qed

lemma konami_step:
  "konamiActivations (keydown c (konami_run keys)) =
     (if last_codes 10 (keys @ [c]) = targetCode then Suc (konamiActivations (konami_run keys))
      else konamiActivations (konami_run keys)) \<and>
   (last_codes 10 (keys @ [c]) = targetCode \<longrightarrow> konamiCode (keydown c (konami_run keys)) = [])"
  using konami_fire_iff [OF konami_inv_run, of keys c]
  by (simp add: keydown_buffer Let_def)

lemma konami_short_silent: "length keys < 10 \<Longrightarrow> konamiActivations (konami_run keys) = 0"
proof (induction keys rule: rev_induct)
  case Nil
  show ?case by (simp add: konami_run_def new_EasterEggManager_def)
next
  case (snoc c keys)
  then have "last_codes 10 (keys @ [c]) = keys @ [c]"
    by (simp add: last_codes_short)
  moreover have "keys @ [c] \<noteq> targetCode"
    using snoc.prems by (metis length_targetCode less_irrefl)
  ultimately show ?case
    using snoc konami_step [of c keys] by (simp add: konami_run_snoc)
qed

lemma konami_ten_keys:
  assumes "length keys = 10"
  shows "konamiActivations (konami_run keys) = (if keys = targetCode then 1 else 0)"
proof -
  from assms obtain ks c where k: "keys = ks @ [c]"
    by (cases keys rule: rev_cases) auto
  then have "length ks < 10" using assms by simp
  then have z: "konamiActivations (konami_run ks) = 0" by (rule konami_short_silent)
  have "last_codes 10 (ks @ [c]) = ks @ [c]"
    using assms by (simp add: k last_codes_short)
  then show ?thesis
    using konami_step [of c ks] z by (simp add: k konami_run_snoc)
qed

text \<open>
  C3. For every sequence of key presses on a fresh manager: the buffer never holds more
  than 10 codes and is the end of the sequence pressed so far; a further key press runs
  the effect exactly when the last 10 codes pressed, that one included, are the target in
  order, and then the buffer is empty afterwards; otherwise the effect does not run.
  Hence the target sequence alone triggers exactly once, the target with one code replaced
  by a different one never triggers, and after any keys at all the target still
  triggers on its last key.
\<close>

theorem konami_detector:
  "(let s = konami_run keys; s' = keydown c s in
      length (konamiCode s) \<le> 10 \<and> suffix (konamiCode s) keys \<and>
      (last_codes 10 (keys @ [c]) = targetCode \<longrightarrow>
         konamiActivations s' = Suc (konamiActivations s) \<and> konamiCode s' = []) \<and>
      (last_codes 10 (keys @ [c]) \<noteq> targetCode \<longrightarrow>
         konamiActivations s' = konamiActivations s)) \<and>
   konamiActivations (konami_run targetCode) = 1 \<and>
   (\<forall>i x. i < length targetCode \<and> x \<noteq> targetCode ! i \<longrightarrow>
      konamiActivations (konami_run (targetCode[i := x])) = 0) \<and>
   (\<forall>pre. konamiActivations (konami_run (pre @ targetCode)) =
      Suc (konamiActivations (konami_run (pre @ butlast targetCode))))"
proof -
  have buf: "length (konamiCode (konami_run keys)) \<le> 10 \<and> suffix (konamiCode (konami_run keys)) keys"
    using konami_inv_run [of keys]
    by (auto simp: konami_inv_def length_targetCode suffix_def)
  have exact: "konamiActivations (konami_run targetCode) = 1"
    using konami_ten_keys [OF length_targetCode] by simp
  have subst: "konamiActivations (konami_run (targetCode[i := x])) = 0"
    if "i < length targetCode" "x \<noteq> targetCode ! i" for i x
  proof -
    have "(targetCode[i := x]) ! i \<noteq> targetCode ! i" using that by simp
    then have "targetCode[i := x] \<noteq> targetCode" by metis
    then show ?thesis
      using konami_ten_keys [of "targetCode[i := x]"] by (simp add: length_targetCode)
  qed
  have tail: "konamiActivations (konami_run (pre @ targetCode)) =
      Suc (konamiActivations (konami_run (pre @ butlast targetCode)))" for pre
  proof -
    have t: "targetCode = butlast targetCode @ [last targetCode]"
      by (simp add: targetCode_def)
    have "last_codes 10 ((pre @ butlast targetCode) @ [last targetCode]) = targetCode"
      using last_codes_exact [OF length_targetCode, of pre] t by simp
    then have "konamiActivations (keydown (last targetCode) (konami_run (pre @ butlast targetCode)))
        = Suc (konamiActivations (konami_run (pre @ butlast targetCode)))"
      using konami_step [of "last targetCode" "pre @ butlast targetCode"] by simp
    moreover have "konami_run (pre @ targetCode)
        = keydown (last targetCode) (konami_run (pre @ butlast targetCode))"
      using konami_run_snoc [of "pre @ butlast targetCode" "last targetCode"] t by simp
    ultimately show ?thesis by simp
  qed
  show ?thesis
    unfolding Let_def using buf konami_step [of c keys] exact subst tail by simp
qed

theorem konami_detector_witness:
  "konamiActivations (konami_run targetCode) = 1 \<and>
   konamiActivations (konami_run (targetCode[3 := ''KeyZ''])) = 0 \<and>
   konamiActivations (konami_run ([''KeyZ'', ''ArrowUp''] @ butlast targetCode)) = 0 \<and>
   konamiActivations (konami_run ([''KeyZ'', ''ArrowUp''] @ targetCode)) = 1 \<and>
   konamiCode (konami_run ([''KeyZ'', ''ArrowUp''] @ targetCode)) = [] \<and>
   konamiCode (konami_run ([''KeyZ'', ''ArrowUp''] @ butlast targetCode))
     = ''ArrowUp'' # butlast targetCode"
proof -
  let ?keys = "[''KeyZ'', ''ArrowUp''] @ butlast targetCode"
  have t: "targetCode = butlast targetCode @ [''KeyA'']"
    by (simp add: targetCode_def)
  have before: "konami_run ?keys =
      \<lparr>konamiCode = ''ArrowUp'' # butlast targetCode, konamiActivations = 0\<rparr>"
    by code_simp
  have lc: "last_codes 10 (?keys @ [''KeyA'']) = targetCode"
    by (simp add: last_codes_def targetCode_def)
  have run: "konami_run ([''KeyZ'', ''ArrowUp''] @ targetCode) = keydown ''KeyA'' (konami_run ?keys)"
    using konami_run_snoc [of ?keys "''KeyA''"] t by simp
  have i: "3 < length targetCode \<and> ''KeyZ'' \<noteq> targetCode ! 3"
    by (simp add: targetCode_def)
  have b0: "konamiActivations (konami_run ?keys) = 0"
    and b1: "konamiCode (konami_run ?keys) = ''ArrowUp'' # butlast targetCode"
    by (simp_all only: before easterEgg.simps)
  note d = konami_detector [of ?keys "''KeyA''"]
  have a1: "konamiActivations (konami_run (targetCode[3 := ''KeyZ''])) = 0"
    using d i by blast
  have a2: "konamiActivations (konami_run targetCode) = 1"
    using d by simp
  have k: "konamiActivations (keydown ''KeyA'' (konami_run ?keys)) = 1"
    "konamiCode (keydown ''KeyA'' (konami_run ?keys)) = []"
    using d lc b0 by (simp_all add: Let_def)
  show ?thesis
    by (simp only: run k b0 b1 a1 a2 simp_thms)
qed

end
